theory Spec2Isabelle
  imports Main "HOL-Library.Word" "HOL-Library.Sublist" "HOL-Library.AList"
begin

section \<open>The tab-grouping request handler of server.js\<close>

text \<open>
  This theory embeds the handler of \<^verbatim>\<open>POST /group-tabs\<close> (server.js, lines 31 to 170)
  and the parts of the JavaScript run time it calls: property reads, truthiness,
  \<^verbatim>\<open>typeof\<close>, string conversion in template literals, \<^verbatim>\<open>JSON.parse\<close>,
  \<^verbatim>\<open>String.prototype.match\<close> on the two regular expressions of the source and
  \<^verbatim>\<open>String.prototype.substring\<close>. Strings are sequences of 16-bit code units and
  numbers are IEEE-754 binary64 values, rounded and printed as the engine does.

  What is outside the model: what the console prints (the conversions to a string that a
  logging statement makes before it prints are in the model, since they can throw); the
  serialisation of the response body by \<^verbatim>\<open>res.json\<close> (a response is a status and a
  JavaScript value); resource limits of the engine; the text of the messages of the
  engine's own \<^verbatim>\<open>TypeError\<close>s, which the handler takes as a parameter.
\<close>

subsection \<open>Strings\<close>

text \<open>
  A JavaScript string is a sequence of 16-bit code units; \<^verbatim>\<open>length\<close> and
  \<^verbatim>\<open>substring\<close> count code units. \<open>js\<close> turns an ASCII literal into such a string.
\<close>

type_synonym jschar = "16 word"
type_synonym jsstring = "jschar list"

definition js :: "string \<Rightarrow> jsstring" where
  "js s = map of_char s"

subsection \<open>Numbers\<close>

text \<open>
  A Number is an IEEE-754 binary64 value: \<open>Finite neg m e\<close> is the number
  \<open>m * 2 ^ e\<close>, negative when \<open>neg\<close>, with \<open>m\<close> odd, or zero as \<open>Finite neg 0 0\<close>, so
  that equal numbers are equal terms; \<open>Infinite neg\<close> is an infinity, which JSON text
  denotes by a literal too large, and \<open>NaN\<close> is the value that is not a number, which
  JSON text never denotes.
\<close>

datatype jsnum = Finite bool int int | Infinite bool | NaN

fun num_is_zero :: "jsnum \<Rightarrow> bool" where
  "num_is_zero (Finite neg m e) = (m = 0)"
| "num_is_zero x = False"

fun with_sign :: "bool \<Rightarrow> jsnum \<Rightarrow> jsnum" where
  "with_sign neg (Finite s m e) = Finite neg m e"
| "with_sign neg (Infinite s) = Infinite neg"
| "with_sign neg NaN = NaN"

function strip_twos :: "int \<Rightarrow> int \<Rightarrow> jsnum" where
  "strip_twos m e =
     (if 0 < m \<and> even m then strip_twos (m div 2) (e + 1) else Finite False m e)"
  by pat_completeness auto
termination
  by (relation "measure (\<lambda>(m, e). nat m)") auto

text \<open>The number \<open>m * 2 ^ e\<close> for \<open>0 \<le> m\<close>.\<close>

definition finite_num :: "int \<Rightarrow> int \<Rightarrow> jsnum" where
  "finite_num m e = (if m \<le> 0 then Finite False 0 0 else strip_twos m e)"

text \<open>
  The binary64 value nearest to the positive rational \<open>a / b\<close>, ties to the even
  mantissa: the mantissa has 53 bits, the exponent of its last bit lies between
  \<open>-1074\<close> and \<open>971\<close>; what rounds to \<open>2 ^ 1024\<close> is infinite.
\<close>

function bitlen :: "int \<Rightarrow> int" where
  "bitlen n = (if n \<le> 0 then 0 else 1 + bitlen (n div 2))"
  by pat_completeness auto
termination
  by (relation "measure nat") auto

definition floor_log2 :: "int \<Rightarrow> int \<Rightarrow> int" where
  "floor_log2 a b =
     (let l = bitlen a - bitlen b in
      if (if 0 \<le> l then b * 2 ^ nat l \<le> a else b \<le> a * 2 ^ nat (- l)) then l else l - 1)"

definition round_half_even :: "int \<Rightarrow> int \<Rightarrow> int" where
  "round_half_even num den =
     (let q = num div den; r = num mod den in
      if den < 2 * r \<or> (2 * r = den \<and> odd q) then q + 1 else q)"

definition round_to_double :: "int \<Rightarrow> int \<Rightarrow> jsnum" where
  "round_to_double a b =
     (if a \<le> 0 then Finite False 0 0
      else
        let e = max (floor_log2 a b - 52) (- 1074);
            m = (if 0 \<le> e then round_half_even a (b * 2 ^ nat e)
                 else round_half_even (a * 2 ^ nat (- e)) b)
        in if 971 < e \<or> (e = 971 \<and> 2 ^ 53 \<le> m) then Infinite False else finite_num m e)"

text \<open>
  The Number value of the integer \<open>n\<close>, which is \<open>n\<close> itself when its magnitude is at
  most \<open>2 ^ 53\<close> (\<open>js_of_int_exact\<close> below); the length of an array or of a string is
  always below.
\<close>

definition js_of_int :: "int \<Rightarrow> jsnum" where
  "js_of_int n = with_sign (n < 0) (round_to_double \<bar>n\<bar> 1)"

definition js_of_nat :: "nat \<Rightarrow> jsnum" where
  "js_of_nat n = js_of_int (int n)"

text \<open>The Number value of the decimal \<open>m * 10 ^ e\<close>, for \<open>0 \<le> m\<close>.\<close>

definition mk_num :: "int \<Rightarrow> int \<Rightarrow> jsnum" where
  "mk_num m e =
     (if 0 \<le> e then round_to_double (m * 10 ^ nat e) 1 else round_to_double m (10 ^ nat (- e)))"

text \<open>Decimal digits.\<close>

definition digit_char :: "int \<Rightarrow> jschar" where
  "digit_char d = 0x30 + of_int d"

function digits_of :: "int \<Rightarrow> jsstring" where
  "digits_of n =
     (if n < 10 then [digit_char n] else digits_of (n div 10) @ [digit_char (n mod 10)])"
  by pat_completeness auto
termination
  by (relation "measure nat") auto

definition is_digit :: "jschar \<Rightarrow> bool" where
  "is_digit c = (0x30 \<le> c \<and> c \<le> 0x39)"

definition digit_val :: "jschar \<Rightarrow> int" where
  "digit_val c = int (unat c) - 48"

definition digits_val :: "jsstring \<Rightarrow> int" where
  "digits_val ds = foldl (\<lambda>a c. 10 * a + digit_val c) 0 ds"

text \<open>
  \<^verbatim>\<open>Number::toString\<close> (ECMA-262). The digits are the fewest, \<open>k\<close> of them between 1
  and 17, of a decimal \<open>s * 10 ^ (p - k)\<close> whose Number value is the number itself, and
  among these the decimal nearest to the number. \<open>decimal_exponent a b\<close> is the \<open>p\<close> with
  \<open>10 ^ (p - 1) \<le> a / b < 10 ^ p\<close>. \<open>digits_at m e p k\<close> tries the two decimals of \<open>k\<close>
  digits around \<open>m * 2 ^ e\<close>.
\<close>

function leading_zeros :: "int \<Rightarrow> int \<Rightarrow> nat \<Rightarrow> nat" where
  "leading_zeros a b j =
     (if a \<le> 0 \<or> b \<le> a * 10 ^ j then j else leading_zeros a b (Suc j))"
  by pat_completeness auto
termination
proof (relation "measure (\<lambda>(a, b, j). nat (b - a * 10 ^ j))")
  show "wf (measure (\<lambda>(a :: int, b, j). nat (b - a * 10 ^ j)))"
    by simp
next
  fix a b :: int and j :: nat
  assume "\<not> (a \<le> 0 \<or> b \<le> a * 10 ^ j)"
  then have a: "0 < a" and b: "a * 10 ^ j < b"
    by auto
  have "a * 10 ^ j < a * 10 ^ Suc j"
    using a by simp
  then show "((a, b, Suc j), (a, b, j)) \<in> measure (\<lambda>(a, b, j). nat (b - a * 10 ^ j))"
    using b by simp
qed

definition decimal_exponent :: "int \<Rightarrow> int \<Rightarrow> int" where
  "decimal_exponent a b =
     (if b \<le> a then int (length (digits_of (a div b))) else 1 - int (leading_zeros a b 1))"

definition digits_at :: "int \<Rightarrow> int \<Rightarrow> int \<Rightarrow> int \<Rightarrow> int option" where
  "digits_at m e p k =
     (let a = (if 0 \<le> e then m * 2 ^ nat e else m);
          b = (if 0 \<le> e then 1 else 2 ^ nat (- e));
          d = k - p;
          num = (if 0 \<le> d then a * 10 ^ nat d else a);
          den = (if 0 \<le> d then b else b * 10 ^ nat (- d));
          lo = num div den;
          r = num mod den;
          ok_lo = (mk_num lo (- d) = Finite False m e);
          ok_hi = (mk_num (lo + 1) (- d) = Finite False m e)
      in if ok_lo \<and> ok_hi then
           Some (if 2 * r < den \<or> (2 * r = den \<and> even lo) then lo else lo + 1)
         else if ok_lo then Some lo
         else if ok_hi then Some (lo + 1)
         else None)"

text \<open>
  The first length that has such a decimal gives the digits \<open>s\<close> and the exponent of
  their last place. Seventeen digits always do for a binary64 value; the exact decimal
  expansion stands for the case that cannot happen.
\<close>

fun shortest_from :: "int \<Rightarrow> int \<Rightarrow> int \<Rightarrow> int list \<Rightarrow> int \<times> int" where
  "shortest_from m e p [] = (if 0 \<le> e then (m * 2 ^ nat e, 0) else (m * 5 ^ nat (- e), e))"
| "shortest_from m e p (k # ks) =
     (case digits_at m e p k of
        Some s \<Rightarrow> (s, p - k)
      | None \<Rightarrow> shortest_from m e p ks)"

definition shortest_digits :: "int \<Rightarrow> int \<Rightarrow> int \<times> int" where
  "shortest_digits m e =
     (let a = (if 0 \<le> e then m * 2 ^ nat e else m);
          b = (if 0 \<le> e then 1 else 2 ^ nat (- e))
      in shortest_from m e (decimal_exponent a b) [1 .. 17])"

text \<open>
  The digits \<open>ds\<close>, without trailing zeros, \<open>k\<close> of them, and the place \<open>n\<close> of the
  decimal point after the first digit of \<open>ds\<close>: plain digits up to 21 places, a decimal
  point inside or after \<^verbatim>\<open>0.\<close> down to \<open>n = -5\<close>, exponent notation otherwise.
\<close>

definition format_digits :: "jsstring \<Rightarrow> int \<Rightarrow> jsstring" where
  "format_digits ds n =
     (let k = int (length ds) in
      if k \<le> n \<and> n \<le> 21 then ds @ replicate (nat (n - k)) 0x30
      else if 0 < n \<and> n \<le> 21 then take (nat n) ds @ js ''.'' @ drop (nat n) ds
      else if -6 < n \<and> n \<le> 0 then js ''0.'' @ replicate (nat (- n)) 0x30 @ ds
      else
        let ex = n - 1;
            sgn = (if ex < 0 then js ''-'' else js ''+'');
            es = digits_of \<bar>ex\<bar>
        in if k = 1 then ds @ js ''e'' @ sgn @ es
           else take 1 ds @ js ''.'' @ drop 1 ds @ js ''e'' @ sgn @ es)"

definition drop_zeros :: "jsstring \<Rightarrow> jsstring" where
  "drop_zeros ds = rev (dropWhile (\<lambda>c. c = 0x30) (rev ds))"

fun Number_toString :: "jsnum \<Rightarrow> jsstring" where
  "Number_toString NaN = js ''NaN''"
| "Number_toString (Infinite neg) = (if neg then js ''-Infinity'' else js ''Infinity'')"
| "Number_toString (Finite neg m e) =
     (if m = 0 then js ''0''
      else
        let (s, t) = shortest_digits m e;
            ds = digits_of s;
            body = format_digits (drop_zeros ds) (int (length ds) + t)
        in if neg then js ''-'' @ body else body)"

subsection \<open>Values\<close>

text \<open>
  The values that JSON text and the upstream client can produce. An object is the list
  of its own properties in creation order, with distinct keys.
\<close>

datatype jsval =
    Undefined
  | Null
  | Bool bool
  | Num jsnum
  | Str jsstring
  | Arr "jsval list"
  | Obj "(jsstring \<times> jsval) list"

text \<open>
  The engine's own errors: destructuring \<^verbatim>\<open>undefined\<close> or \<^verbatim>\<open>null\<close>; reading a
  property of \<^verbatim>\<open>undefined\<close> or \<^verbatim>\<open>null\<close>; calling what is not a function, with the
  text of the callee; converting an object without primitive value to a string;
  \<^verbatim>\<open>Object.keys\<close> of \<^verbatim>\<open>undefined\<close> or \<^verbatim>\<open>null\<close>.
\<close>

datatype type_error =
    DestructureNullish jsval
  | ReadOfNullish jsval jsstring
  | NotAFunction jsstring
  | NoPrimitiveValue
  | KeysOfNullish

datatype exn =
    ApiError jsstring
  | TypeError type_error

text \<open>
  \<open>error.message\<close>: the message of an upstream error is the string it was rejected with;
  the message of an engine error is the engine's, \<open>tmsg\<close>.
\<close>

fun message :: "(type_error \<Rightarrow> jsstring) \<Rightarrow> exn \<Rightarrow> jsstring" where
  "message tmsg (ApiError m) = m"
| "message tmsg (TypeError t) = tmsg t"

fun truthy :: "jsval \<Rightarrow> bool" where
  "truthy Undefined = False"
| "truthy Null = False"
| "truthy (Bool b) = b"
| "truthy (Num x) = (\<not> num_is_zero x \<and> x \<noteq> NaN)"
| "truthy (Str s) = (s \<noteq> [])"
| "truthy (Arr vs) = True"
| "truthy (Obj kvs) = True"

fun nullish :: "jsval \<Rightarrow> bool" where
  "nullish Undefined = True"
| "nullish Null = True"
| "nullish v = False"

fun typeof :: "jsval \<Rightarrow> jsstring" where
  "typeof Undefined = js ''undefined''"
| "typeof Null = js ''object''"
| "typeof (Bool b) = js ''boolean''"
| "typeof (Num x) = js ''number''"
| "typeof (Str s) = js ''string''"
| "typeof (Arr vs) = js ''object''"
| "typeof (Obj kvs) = js ''object''"

text \<open>
  \<open>get_prop v k\<close> reads the property \<open>k\<close> of a value that is neither \<^verbatim>\<open>undefined\<close> nor
  \<^verbatim>\<open>null\<close>, for a name \<open>k\<close> that is not an array index and that no prototype defines:
  every name the handler reads as data (\<^verbatim>\<open>tabs\<close>, \<^verbatim>\<open>length\<close>, \<^verbatim>\<open>id\<close>, \<^verbatim>\<open>title\<close>,
  \<^verbatim>\<open>url\<close>, \<^verbatim>\<open>text\<close>, \<^verbatim>\<open>candidates\<close>, \<^verbatim>\<open>content\<close>, \<^verbatim>\<open>parts\<close>) is one.
  \<open>get_index v i\<close> reads \<^verbatim>\<open>v[i]\<close>.
\<close>

fun get_prop :: "jsval \<Rightarrow> jsstring \<Rightarrow> jsval" where
  "get_prop (Obj kvs) k = (case map_of kvs k of Some v \<Rightarrow> v | None \<Rightarrow> Undefined)"
| "get_prop (Arr vs) k = (if k = js ''length'' then Num (js_of_nat (length vs)) else Undefined)"
| "get_prop (Str s) k = (if k = js ''length'' then Num (js_of_nat (length s)) else Undefined)"
| "get_prop v k = Undefined"

fun get_index :: "jsval \<Rightarrow> nat \<Rightarrow> jsval" where
  "get_index (Obj kvs) i =
     (case map_of kvs (digits_of (int i)) of Some v \<Rightarrow> v | None \<Rightarrow> Undefined)"
| "get_index (Arr vs) i = (if i < length vs then vs ! i else Undefined)"
| "get_index (Str s) i = (if i < length s then Str [s ! i] else Undefined)"
| "get_index v i = Undefined"

text \<open>\<^verbatim>\<open>v.k\<close>, which throws on \<^verbatim>\<open>undefined\<close> and \<^verbatim>\<open>null\<close>.\<close>

definition read_prop :: "jsval \<Rightarrow> jsstring \<Rightarrow> exn + jsval" where
  "read_prop v k = (if nullish v then Inl (TypeError (ReadOfNullish v k)) else Inr (get_prop v k))"

text \<open>\<^verbatim>\<open>v?.k\<close> and \<^verbatim>\<open>v?.[i]\<close>.\<close>

definition opt_prop :: "jsval \<Rightarrow> jsstring \<Rightarrow> jsval" where
  "opt_prop v k = (if nullish v then Undefined else get_prop v k)"

definition opt_index :: "jsval \<Rightarrow> nat \<Rightarrow> jsval" where
  "opt_index v i = (if nullish v then Undefined else get_index v i)"

text \<open>
  The order in which an object enumerates its own properties: first the keys that are
  array indices, the decimal digits of an integer from 0 to \<open>2 ^ 32 - 2\<close>, in ascending
  order of the integer; then the other keys in creation order.
\<close>

definition array_index :: "jsstring \<Rightarrow> int option" where
  "array_index k =
     (if k \<noteq> [] \<and> list_all is_digit k \<and> (k = [0x30] \<or> hd k \<noteq> 0x30)
         \<and> digits_val k < 4294967295
      then Some (digits_val k) else None)"

fun insert_index :: "int \<Rightarrow> jsstring \<Rightarrow> jsstring list \<Rightarrow> jsstring list" where
  "insert_index i k [] = [k]"
| "insert_index i k (p # ps) =
     (case array_index p of
        Some j \<Rightarrow> if j < i then p # insert_index i k ps else k # p # ps
      | None \<Rightarrow> k # p # ps)"

definition own_keys :: "(jsstring \<times> 'v) list \<Rightarrow> jsstring list" where
  "own_keys kvs =
     foldl (\<lambda>ks k. case array_index k of Some i \<Rightarrow> insert_index i k ks | None \<Rightarrow> ks @ [k])
       [] (map fst kvs)"

text \<open>
  \<^verbatim>\<open>Object.keys\<close>: the own enumerable string keys; it throws on \<^verbatim>\<open>undefined\<close> and
  \<^verbatim>\<open>null\<close>.
\<close>

fun Object_keys :: "jsval \<Rightarrow> exn + jsstring list" where
  "Object_keys Undefined = Inl (TypeError KeysOfNullish)"
| "Object_keys Null = Inl (TypeError KeysOfNullish)"
| "Object_keys (Obj kvs) = Inr (own_keys kvs)"
| "Object_keys (Arr vs) = Inr (map (\<lambda>i. digits_of (int i)) [0 ..< length vs])"
| "Object_keys (Str s) = Inr (map (\<lambda>i. digits_of (int i)) [0 ..< length s])"
| "Object_keys v = Inr []"

subsection \<open>String conversion\<close>

text \<open>
  \<^verbatim>\<open>ToString\<close>, as a template literal applies it to each substitution. An array is
  joined with commas, \<^verbatim>\<open>undefined\<close> and \<^verbatim>\<open>null\<close> elements giving the empty string. A
  plain object is \<^verbatim>\<open>[object Object]\<close>, unless an own property \<^verbatim>\<open>toString\<close> (from JSON,
  never a function) hides \<^verbatim>\<open>Object.prototype.toString\<close>: then no primitive value is
  found and the conversion throws.
\<close>

fun sequence_exn :: "(exn + 'a) list \<Rightarrow> exn + 'a list" where
  "sequence_exn [] = Inr []"
| "sequence_exn (Inl e # rs) = Inl e"
| "sequence_exn (Inr x # rs) =
     (case sequence_exn rs of Inl e \<Rightarrow> Inl e | Inr xs \<Rightarrow> Inr (x # xs))"

fun join_with :: "jsstring \<Rightarrow> jsstring list \<Rightarrow> jsstring" where
  "join_with sep [] = []"
| "join_with sep [s] = s"
| "join_with sep (s # t # ss) = s @ sep @ join_with sep (t # ss)"

fun ToString :: "jsval \<Rightarrow> exn + jsstring" where
  "ToString Undefined = Inr (js ''undefined'')"
| "ToString Null = Inr (js ''null'')"
| "ToString (Bool b) = Inr (if b then js ''true'' else js ''false'')"
| "ToString (Num x) = Inr (Number_toString x)"
| "ToString (Str s) = Inr s"
| "ToString (Arr vs) =
     (case sequence_exn (map (\<lambda>v. if nullish v then Inr [] else ToString v) vs) of
        Inl e \<Rightarrow> Inl e
      | Inr ss \<Rightarrow> Inr (join_with (js '','') ss))"
| "ToString (Obj kvs) =
     (if js ''toString'' \<in> fst ` set kvs then Inl (TypeError NoPrimitiveValue)
      else Inr (js ''[object Object]''))"

subsection \<open>JSON.parse\<close>

text \<open>
  \<^verbatim>\<open>JSON.parse\<close> by recursive descent over the grammar of ECMA-404. A result is the
  value read and the text that remains; \<open>None\<close> is the \<^verbatim>\<open>SyntaxError\<close>.
\<close>

definition is_json_ws :: "jschar \<Rightarrow> bool" where
  "is_json_ws c = (c = 0x20 \<or> c = 0x09 \<or> c = 0x0A \<or> c = 0x0D)"

definition skip_ws :: "jsstring \<Rightarrow> jsstring" where
  "skip_ws s = dropWhile is_json_ws s"

definition hex_val :: "jschar \<Rightarrow> jschar option" where
  "hex_val c =
     (if 0x30 \<le> c \<and> c \<le> 0x39 then Some (c - 0x30)
      else if 0x41 \<le> c \<and> c \<le> 0x46 then Some (c - 0x41 + 10)
      else if 0x61 \<le> c \<and> c \<le> 0x66 then Some (c - 0x61 + 10)
      else None)"

definition hex4 :: "jschar \<Rightarrow> jschar \<Rightarrow> jschar \<Rightarrow> jschar \<Rightarrow> jschar option" where
  "hex4 a b c d =
     (case (hex_val a, hex_val b, hex_val c, hex_val d) of
        (Some x, Some y, Some z, Some w) \<Rightarrow> Some (((x * 16 + y) * 16 + z) * 16 + w)
      | _ \<Rightarrow> None)"

text \<open>The character a one-letter escape stands for: \<^verbatim>\<open>" \ / b f n r t\<close>.\<close>

definition unescape :: "jschar \<Rightarrow> jschar option" where
  "unescape e =
     (if e = 0x22 then Some 0x22
      else if e = 0x5C then Some 0x5C
      else if e = 0x2F then Some 0x2F
      else if e = 0x62 then Some 0x08
      else if e = 0x66 then Some 0x0C
      else if e = 0x6E then Some 0x0A
      else if e = 0x72 then Some 0x0D
      else if e = 0x74 then Some 0x09
      else None)"

text \<open>The characters of a string literal, after its opening quote up to the closing one.\<close>

fun parse_chars :: "jsstring \<Rightarrow> (jsstring \<times> jsstring) option" where
  "parse_chars [] = None"
| "parse_chars (c # cs) =
     (if c = 0x22 then Some ([], cs)
      else if c = 0x5C then
        (case cs of
           [] \<Rightarrow> None
         | e # r \<Rightarrow>
             if e = 0x75 then
               (case r of
                  h1 # h2 # h3 # h4 # r' \<Rightarrow>
                    (case hex4 h1 h2 h3 h4 of
                       None \<Rightarrow> None
                     | Some u \<Rightarrow>
                         (case parse_chars r' of
                            None \<Rightarrow> None
                          | Some (str, rest) \<Rightarrow> Some (u # str, rest)))
                | _ \<Rightarrow> None)
             else
               (case unescape e of
                  None \<Rightarrow> None
                | Some u \<Rightarrow>
                    (case parse_chars r of
                       None \<Rightarrow> None
                     | Some (str, rest) \<Rightarrow> Some (u # str, rest))))
      else if c < 0x20 then None
      else
        (case parse_chars cs of
           None \<Rightarrow> None
         | Some (str, rest) \<Rightarrow> Some (c # str, rest)))"

definition parse_frac :: "jsstring \<Rightarrow> (jsstring \<times> jsstring) option" where
  "parse_frac s =
     (case s of
        [] \<Rightarrow> Some ([], s)
      | c # r \<Rightarrow>
          if c = 0x2E then
            (if takeWhile is_digit r = [] then None
             else Some (takeWhile is_digit r, dropWhile is_digit r))
          else Some ([], s))"

definition parse_sign :: "jsstring \<Rightarrow> int \<times> jsstring" where
  "parse_sign s =
     (case s of
        [] \<Rightarrow> (1, s)
      | c # r \<Rightarrow> if c = 0x2B then (1, r) else if c = 0x2D then (- 1, r) else (1, s))"

definition parse_exp :: "jsstring \<Rightarrow> (int \<times> jsstring) option" where
  "parse_exp s =
     (case s of
        [] \<Rightarrow> Some (0, s)
      | c # r \<Rightarrow>
          if c = 0x65 \<or> c = 0x45 then
            (case parse_sign r of
               (sg, r1) \<Rightarrow>
                 if takeWhile is_digit r1 = [] then None
                 else Some (sg * digits_val (takeWhile is_digit r1), dropWhile is_digit r1))
          else Some (0, s))"

text \<open>
  A number: an optional minus, \<^verbatim>\<open>0\<close> or a digit sequence without leading zero, an
  optional fraction and an optional exponent. Its value is the Number value of the
  decimal, the nearest binary64 value, with the sign of the literal.
\<close>

definition parse_number :: "jsstring \<Rightarrow> (jsnum \<times> jsstring) option" where
  "parse_number s =
     (case (case s of [] \<Rightarrow> (False, s) | c # r \<Rightarrow> if c = 0x2D then (True, r) else (False, s)) of
        (neg, s1) \<Rightarrow>
          (case s1 of
             [] \<Rightarrow> None
           | d # r \<Rightarrow>
               if \<not> is_digit d then None
               else
                 (case (if d = 0x30 then ([d], r)
                        else (d # takeWhile is_digit r, dropWhile is_digit r)) of
                    (ip, s2) \<Rightarrow>
                      (case parse_frac s2 of
                         None \<Rightarrow> None
                       | Some (fp, s3) \<Rightarrow>
                           (case parse_exp s3 of
                              None \<Rightarrow> None
                            | Some (ex, s4) \<Rightarrow>
                                Some (with_sign neg
                                        (mk_num (digits_val (ip @ fp)) (ex - int (length fp))),
                                      s4))))))"

lemma length_skip_ws: "length (skip_ws s) \<le> length s"
  by (simp add: skip_ws_def length_dropWhile_le)

lemma parse_chars_shorter: "parse_chars s = Some (str, rest) \<Longrightarrow> length rest < length s"
proof (induction s arbitrary: str rest rule: parse_chars.induct)
  case 1
  then show ?case by simp
next
  case (2 c cs)
  then show ?case
    by (fastforce split: if_splits list.splits option.splits)
qed

text \<open>
  A value, the elements of an array after \<^verbatim>\<open>[\<close> or a comma, and the members of an
  object after \<^verbatim>\<open>{\<close> or a comma. A later member replaces the value of an earlier one of
  the same name. The tests \<open>length r' < length s\<close> before the two recursive calls on a
  remainder serve the termination proof; \<open>parse_value_shorter\<close> shows that they always
  hold.
\<close>

function parse_value :: "jsstring \<Rightarrow> (jsval \<times> jsstring) option"
  and parse_elements :: "jsstring \<Rightarrow> jsval list \<Rightarrow> (jsval \<times> jsstring) option"
  and parse_members :: "jsstring \<Rightarrow> (jsstring \<times> jsval) list \<Rightarrow> (jsval \<times> jsstring) option"
where
  "parse_value s =
     (case s of
        [] \<Rightarrow> None
      | c # cs \<Rightarrow>
          if c = 0x7B then
            (case skip_ws cs of
               [] \<Rightarrow> None
             | d # r \<Rightarrow> if d = 0x7D then Some (Obj [], r) else parse_members (d # r) [])
          else if c = 0x5B then
            (case skip_ws cs of
               [] \<Rightarrow> None
             | d # r \<Rightarrow> if d = 0x5D then Some (Arr [], r) else parse_elements (d # r) [])
          else if c = 0x22 then
            (case parse_chars cs of
               None \<Rightarrow> None
             | Some (str, r) \<Rightarrow> Some (Str str, r))
          else if prefix (js ''true'') s then Some (Bool True, drop 4 s)
          else if prefix (js ''false'') s then Some (Bool False, drop 5 s)
          else if prefix (js ''null'') s then Some (Null, drop 4 s)
          else
            (case parse_number s of
               None \<Rightarrow> None
             | Some (x, r) \<Rightarrow> Some (Num x, r)))"
| "parse_elements s acc =
     (case parse_value s of
        None \<Rightarrow> None
      | Some (v, r) \<Rightarrow>
          (case skip_ws r of
             [] \<Rightarrow> None
           | d # r' \<Rightarrow>
               if d = 0x2C then
                 (if length r' < length s then parse_elements (skip_ws r') (acc @ [v])
                  else None)
               else if d = 0x5D then Some (Arr (acc @ [v]), r')
               else None))"
| "parse_members s acc =
     (case s of
        [] \<Rightarrow> None
      | q # cs \<Rightarrow>
          if q \<noteq> 0x22 then None
          else
            (case parse_chars cs of
               None \<Rightarrow> None
             | Some (k, r) \<Rightarrow>
                 (case skip_ws r of
                    [] \<Rightarrow> None
                  | col # r1 \<Rightarrow>
                      if col \<noteq> 0x3A then None
                      else
                        (case parse_value (skip_ws r1) of
                           None \<Rightarrow> None
                         | Some (v, r2) \<Rightarrow>
                             (case skip_ws r2 of
                                [] \<Rightarrow> None
                              | d # r3 \<Rightarrow>
                                  if d = 0x2C then
                                    (if length r3 < length s
                                     then parse_members (skip_ws r3) (AList.update k v acc)
                                     else None)
                                  else if d = 0x7D then Some (Obj (AList.update k v acc), r3)
                                  else None)))))"
  by pat_completeness auto
termination
proof (relation "measure (\<lambda>x. case x of
          Inl s \<Rightarrow> 2 * length s
        | Inr (Inl (s, acc)) \<Rightarrow> 2 * length s + 1
        | Inr (Inr (s, acc)) \<Rightarrow> 2 * length s + 1)", goal_cases)
  case 1
  then show ?case by simp
next
  case (2 s c cs d r)
  have "length (d # r) \<le> length cs"
    using length_skip_ws [of cs] 2 by simp
  with 2 show ?case by simp
next
  case (3 s c cs d r)
  have "length (d # r) \<le> length cs"
    using length_skip_ws [of cs] 3 by simp
  with 3 show ?case by simp
next
  case (4 s acc)
  then show ?case by simp
next
  case (5 s acc x2 v r d r')
  have "length (skip_ws r') \<le> length r'"
    by (rule length_skip_ws)
  with 5 show ?case by simp
next
  case (6 s acc q cs x2 k r col r1)
  have a: "length r < length cs"
    using 6 by (auto dest: parse_chars_shorter)
  have b: "length (col # r1) \<le> length r"
    using length_skip_ws [of r] 6 by simp
  have c: "length (skip_ws r1) \<le> length r1"
    by (rule length_skip_ws)
  from a b c 6 show ?case by simp
next
  case (7 s acc q cs x2 k r col r1 x2a v r2 d r3)
  have "length (skip_ws r3) \<le> length r3"
    by (rule length_skip_ws)
  with 7 show ?case by simp
qed

definition JSON_parse :: "jsstring \<Rightarrow> jsval option" where
  "JSON_parse text =
     (case parse_value (skip_ws text) of
        None \<Rightarrow> None
      | Some (v, rest) \<Rightarrow> if skip_ws rest = [] then Some v else None)"

declare parse_value.simps [simp del] parse_elements.simps [simp del] parse_members.simps [simp del]
declare strip_twos.simps [simp del] digits_of.simps [simp del] bitlen.simps [simp del]
declare leading_zeros.simps [simp del]

subsection \<open>Regular expressions\<close>

text \<open>
  The fragment of JavaScript's regular expressions that the handler uses, matched by
  backtracking as the engine does: alternatives are tried in priority order, and a later
  one only when the rest of the pattern fails after the earlier one. A state is the text
  that remains and the capture of group 1; the continuation \<open>k\<close> is the rest of the
  pattern.
\<close>

datatype re =
    Lit jsstring
  | Opt re
  | Star "jschar \<Rightarrow> bool"
  | LazyStar "jschar \<Rightarrow> bool"
  | Seq re re
  | Group re

type_synonym mstate = "jsstring \<times> jsstring option"

text \<open>\<^verbatim>\<open>c*\<close> for a character class: as many as possible first, then fewer.\<close>

fun star_greedy :: "(jschar \<Rightarrow> bool) \<Rightarrow> jsstring \<Rightarrow> (jsstring \<Rightarrow> 'a option) \<Rightarrow> 'a option" where
  "star_greedy p [] k = k []"
| "star_greedy p (c # cs) k =
     (if p c then
        (case star_greedy p cs k of
           Some x \<Rightarrow> Some x
         | None \<Rightarrow> k (c # cs))
      else k (c # cs))"

text \<open>\<^verbatim>\<open>c*?\<close> for a character class: as few as possible first, then more.\<close>

fun star_lazy :: "(jschar \<Rightarrow> bool) \<Rightarrow> jsstring \<Rightarrow> (jsstring \<Rightarrow> 'a option) \<Rightarrow> 'a option" where
  "star_lazy p [] k = k []"
| "star_lazy p (c # cs) k =
     (case k (c # cs) of
        Some x \<Rightarrow> Some x
      | None \<Rightarrow> if p c then star_lazy p cs k else None)"

fun match_re :: "re \<Rightarrow> mstate \<Rightarrow> (mstate \<Rightarrow> 'a option) \<Rightarrow> 'a option" where
  "match_re (Lit p) (s, cap) k =
     (if prefix p s then k (drop (length p) s, cap) else None)"
| "match_re (Opt r) st k =
     (case match_re r st k of
        Some x \<Rightarrow> Some x
      | None \<Rightarrow> k st)"
| "match_re (Star p) (s, cap) k = star_greedy p s (\<lambda>s'. k (s', cap))"
| "match_re (LazyStar p) (s, cap) k = star_lazy p s (\<lambda>s'. k (s', cap))"
| "match_re (Seq r1 r2) st k = match_re r1 st (\<lambda>st'. match_re r2 st' k)"
| "match_re (Group r) (s, cap) k =
     match_re r (s, cap) (\<lambda>(s', c). k (s', Some (take (length s - length s') s)))"

text \<open>
  The result of \<^verbatim>\<open>String.prototype.match\<close> with a pattern that has no \<^verbatim>\<open>g\<close> flag: the
  text matched, element 0, and the capture of group 1, element 1; \<open>None\<close> is \<^verbatim>\<open>null\<close>.
\<close>

record match_result =
  whole :: jsstring
  group1 :: "jsstring option"

definition match_here :: "re \<Rightarrow> jsstring \<Rightarrow> match_result option" where
  "match_here r s =
     match_re r (s, None)
       (\<lambda>(s', cap). Some \<lparr>whole = take (length s - length s') s, group1 = cap\<rparr>)"

text \<open>The leftmost position at which the pattern matches.\<close>

fun String_match :: "jsstring \<Rightarrow> re \<Rightarrow> match_result option" where
  "String_match [] r = match_here r []"
| "String_match (c # cs) r =
     (case match_here r (c # cs) of
        Some m \<Rightarrow> Some m
      | None \<Rightarrow> String_match cs r)"

text \<open>\<^verbatim>\<open>\s\<close>: the white space and line terminators of ECMA-262.\<close>

definition is_space :: "jschar \<Rightarrow> bool" where
  "is_space c =
     ((0x09 \<le> c \<and> c \<le> 0x0D) \<or> c = 0x20 \<or> c = 0xA0 \<or> c = 0x1680
      \<or> (0x2000 \<le> c \<and> c \<le> 0x200A) \<or> c = 0x2028 \<or> c = 0x2029 \<or> c = 0x202F
      \<or> c = 0x205F \<or> c = 0x3000 \<or> c = 0xFEFF)"

text \<open>\<^verbatim>\<open>[\s\S]\<close>: any code unit.\<close>

definition any_char :: "jschar \<Rightarrow> bool" where
  "any_char c = True"

text \<open>\<^verbatim>\<open>/```(?:json)?\s*(\{[\s\S]*?\})\s*```/\<close> (line 126).\<close>

definition fence_re :: re where
  "fence_re =
     Seq (Lit (js ''```''))
      (Seq (Opt (Lit (js ''json'')))
        (Seq (Star is_space)
          (Seq (Group (Seq (Lit (js ''{'')) (Seq (LazyStar any_char) (Lit (js ''}'')))))
            (Seq (Star is_space) (Lit (js ''```''))))))"

text \<open>\<^verbatim>\<open>/(\{[\s\S]*\})/\<close> (line 127).\<close>

definition brace_re :: re where
  "brace_re = Group (Seq (Lit (js ''{'')) (Seq (Star any_char) (Lit (js ''}''))))"

subsection \<open>The upstream client and the observable behaviour\<close>

text \<open>
  The argument of \<^verbatim>\<open>ai.models.generateContent\<close>, and what awaiting its promise gives:
  the promise resolves with a value, rejects with an error, or never settles. The
  upstream is a function of the number of calls made before and of the request. The
  handler's observable behaviour is its response, if it sends one, and the sequence of
  upstream calls and waits (in milliseconds).
\<close>

record request =
  model :: jsstring
  contents :: jsstring

datatype outcome = Resolves jsval | Rejects exn | Pending

type_synonym upstream = "nat \<Rightarrow> request \<Rightarrow> outcome"

datatype event = Call request | Wait nat

datatype http_response = Response (status: nat) (body: jsval)

subsection \<open>Input validation (lines 37 to 42)\<close>

text \<open>\<^verbatim>\<open>v === 0\<close>.\<close>

fun is_zero :: "jsval \<Rightarrow> bool" where
  "is_zero (Num x) = num_is_zero x"
| "is_zero v = False"

text \<open>
  \<^verbatim>\<open>const { tabs } = req.body\<close> throws when the body is \<^verbatim>\<open>undefined\<close> or \<^verbatim>\<open>null\<close>.
  The result is the exception, the early response, or the tabs.
\<close>

definition InputValidator :: "jsval \<Rightarrow> exn + (http_response + jsval)" where
  "InputValidator req_body =
     (if nullish req_body then Inl (TypeError (DestructureNullish req_body))
      else
        let tabs = get_prop req_body (js ''tabs'') in
        if \<not> truthy tabs \<or> is_zero (get_prop tabs (js ''length''))
        then Inr (Inl (Response 400 (Obj [(js ''error'', Str (js ''No tabs provided''))])))
        else Inr (Inr tabs))"

subsection \<open>Prompt construction (lines 46 to 61)\<close>

text \<open>The arrow function of line 48: \<^verbatim>\<open>`ID:${tab.id} | ${tab.title} (${tab.url})`\<close>.\<close>

definition tab_line :: "jsval \<Rightarrow> exn + jsstring" where
  "tab_line tab =
     (case read_prop tab (js ''id'') of Inl e \<Rightarrow> Inl e | Inr i \<Rightarrow>
      case ToString i of Inl e \<Rightarrow> Inl e | Inr si \<Rightarrow>
      case read_prop tab (js ''title'') of Inl e \<Rightarrow> Inl e | Inr t \<Rightarrow>
      case ToString t of Inl e \<Rightarrow> Inl e | Inr st \<Rightarrow>
      case read_prop tab (js ''url'') of Inl e \<Rightarrow> Inl e | Inr u \<Rightarrow>
      case ToString u of Inl e \<Rightarrow> Inl e | Inr su \<Rightarrow>
        Inr (js ''ID:'' @ si @ js '' | '' @ st @ js '' ('' @ su @ js '')''))"

text \<open>
  \<^verbatim>\<open>tabs.map(f)\<close>: only an array has a \<^verbatim>\<open>map\<close> method; on any other value the call
  throws. The first exception of \<open>f\<close> ends the iteration.
\<close>

definition tabs_map :: "jsval \<Rightarrow> (jsval \<Rightarrow> exn + 'a) \<Rightarrow> exn + 'a list" where
  "tabs_map tabs f =
     (case tabs of
        Arr vs \<Rightarrow> sequence_exn (map f vs)
      | _ \<Rightarrow> Inl (TypeError (NotAFunction (js ''tabs.map''))))"

definition prompt_head :: jsstring where
  "prompt_head = js
''You are an AI assistant that groups browser tabs into relevant categories. Analyze these browser tabs and group them by topic/purpose.\<newline>\<newline>Return ONLY a valid JSON object with NO markdown, NO code blocks, NO explanations. Just the raw JSON.\<newline>\<newline>The JSON should have category names as keys (strings) and arrays of tab IDs (integers) as values.\<newline>\<newline>Example format:\<newline>{\"Shopping\": [1, 5], \"News\": [2, 3], \"Development\": [4, 6]}\<newline>\<newline>Here are the tabs to group:\<newline>''"

definition PromptBuilder :: "jsval \<Rightarrow> exn + request" where
  "PromptBuilder tabs =
     (case tabs_map tabs tab_line of
        Inl e \<Rightarrow> Inl e
      | Inr lines \<Rightarrow>
          let tabText = join_with (js ''\<newline>'') lines;
              prompt = prompt_head @ tabText
          in Inr \<lparr>model = js ''gemini-2.0-flash-001'', contents = prompt\<rparr>)"

subsection \<open>The retry loop (lines 65 to 90)\<close>

datatype invoked = Returned jsval | Thrown exn | NeverSettles

definition maxAttempts :: nat where
  "maxAttempts = 3"

definition calls_in :: "event list \<Rightarrow> nat" where
  "calls_in log = length (filter (\<lambda>ev. case ev of Call r \<Rightarrow> True | Wait n \<Rightarrow> False) log)"

text \<open>
  One iteration of the \<^verbatim>\<open>while\<close> loop from the state \<open>attempts\<close>. A success breaks out
  of the loop; a failure counts, and either rethrows or waits \<open>1000 * attempts\<close> and
  loops. When the loop condition is false the loop ends with \<^verbatim>\<open>response\<close> unassigned.
\<close>

function invoke_loop :: "upstream \<Rightarrow> request \<Rightarrow> nat \<Rightarrow> event list \<Rightarrow> invoked \<times> event list" where
  "invoke_loop ai req attempts log =
     (if attempts < maxAttempts then
        (case ai (calls_in log) req of
           Resolves response \<Rightarrow> (Returned response, log @ [Call req])
         | Rejects apiError \<Rightarrow>
             if attempts + 1 \<ge> maxAttempts then (Thrown apiError, log @ [Call req])
             else invoke_loop ai req (attempts + 1)
                    (log @ [Call req, Wait (1000 * (attempts + 1))])
         | Pending \<Rightarrow> (NeverSettles, log @ [Call req]))
      else (Returned Undefined, log))"
  by pat_completeness auto
termination
  by (relation "measure (\<lambda>(ai, req, attempts, log). maxAttempts - attempts)") auto

declare invoke_loop.simps [simp del]

definition RetryingInvoker :: "upstream \<Rightarrow> request \<Rightarrow> invoked \<times> event list" where
  "RetryingInvoker ai req = invoke_loop ai req 0 []"

subsection \<open>Text extraction (lines 94 to 111)\<close>

text \<open>\<^verbatim>\<open>response.candidates?.[0]?.content?.parts?.[0]?.text\<close>.\<close>

definition nested_text :: "jsval \<Rightarrow> jsval" where
  "nested_text response =
     opt_prop (opt_index (opt_prop (opt_prop (opt_index
       (get_prop response (js ''candidates'')) 0) (js ''content'')) (js ''parts'')) 0) (js ''text'')"

text \<open>
  The result is the early response or \<^verbatim>\<open>resultText\<close>. Line 99 reads the same chain
  without \<^verbatim>\<open>?.\<close>; the chain was truthy, so no link is \<^verbatim>\<open>undefined\<close> or \<^verbatim>\<open>null\<close> and the
  value is the same.
\<close>

definition ResponseTextExtractor :: "jsval \<Rightarrow> exn + (http_response + jsval)" where
  "ResponseTextExtractor response =
     (if truthy (get_prop response (js ''text'')) then Inr (Inr (get_prop response (js ''text'')))
      else if truthy (nested_text response) then Inr (Inr (nested_text response))
      else if typeof response = js ''string'' then Inr (Inr response)
      else
        (case Object_keys response of
           Inl e \<Rightarrow> Inl e
         | Inr ks \<Rightarrow>
             Inr (Inl (Response 500
               (Obj [(js ''error'', Str (js ''Unexpected API response structure'')),
                     (js ''responseKeys'', Arr (map Str ks))])))))"

subsection \<open>JSON recovery (lines 115 to 147)\<close>

text \<open>\<^verbatim>\<open>jsonMatch[1] || jsonMatch[0]\<close>: an absent or empty capture is falsy.\<close>

definition match_text :: "match_result \<Rightarrow> jsstring" where
  "match_text m =
     (case group1 m of
        Some g \<Rightarrow> if g \<noteq> [] then g else whole m
      | None \<Rightarrow> whole m)"

text \<open>\<^verbatim>\<open>a.match(r1) || a.match(r2)\<close>.\<close>

definition jsonMatch :: "jsstring \<Rightarrow> match_result option" where
  "jsonMatch resultText =
     (case String_match resultText fence_re of
        Some m \<Rightarrow> Some m
      | None \<Rightarrow> String_match resultText brace_re)"

definition StructuredJSONRecovery :: "jsstring \<Rightarrow> http_response + jsval" where
  "StructuredJSONRecovery resultText =
     (case JSON_parse resultText of
        Some groups \<Rightarrow> Inr groups
      | None \<Rightarrow>
          (case jsonMatch resultText of
             Some m \<Rightarrow>
               (case JSON_parse (match_text m) of
                  Some groups \<Rightarrow> Inr groups
                | None \<Rightarrow>
                    Inl (Response 500
                      (Obj [(js ''error'', Str (js ''Failed to parse AI response as JSON'')),
                            (js ''rawResponse'', Str (take 500 resultText))])))
           | None \<Rightarrow>
               Inl (Response 500
                 (Obj [(js ''error'', Str (js ''No valid JSON found in AI response'')),
                       (js ''rawResponse'', Str (take 500 resultText))]))))"

subsection \<open>Validation of the groups (lines 149 to 156)\<close>

definition GroupValidator :: "jsval \<Rightarrow> http_response + jsval" where
  "GroupValidator groups =
     (if typeof groups \<noteq> js ''object'' \<or> groups = Null
      then Inl (Response 500
             (Obj [(js ''error'', Str (js ''Invalid response structure from AI'')),
                   (js ''received'', groups)]))
      else Inr groups)"

subsection \<open>The handler (lines 31 to 170)\<close>

text \<open>
  Lines 115 to 161: the response of the handler once \<^verbatim>\<open>resultText\<close> is known to be
  a string.
\<close>

definition respond_to_text :: "jsstring \<Rightarrow> http_response" where
  "respond_to_text text =
     (case StructuredJSONRecovery text of
        Inl early \<Rightarrow> early
      | Inr groups \<Rightarrow>
          (case GroupValidator groups of
             Inl early \<Rightarrow> early
           | Inr groups' \<Rightarrow> Response 200 groups'))"

text \<open>
  Lines 91 to 161, from the response of the upstream to the response of the handler.
  \<^verbatim>\<open>Object.keys(response)\<close> of line 92 throws on \<^verbatim>\<open>undefined\<close> and \<^verbatim>\<open>null\<close>;
  \<^verbatim>\<open>resultText.substring\<close> of line 113 is a function only when \<^verbatim>\<open>resultText\<close> is a
  string.
\<close>

definition process_response :: "jsval \<Rightarrow> exn + http_response" where
  "process_response response =
     (case Object_keys response of Inl e \<Rightarrow> Inl e | Inr ks \<Rightarrow>
      case ResponseTextExtractor response of
        Inl e \<Rightarrow> Inl e
      | Inr (Inl early) \<Rightarrow> Inr early
      | Inr (Inr resultText) \<Rightarrow>
          (case resultText of
             Str text \<Rightarrow> Inr (respond_to_text text)
           | _ \<Rightarrow> Inl (TypeError (NotAFunction (js ''resultText.substring'')))))"

text \<open>
  Line 44 logs a template literal, \<^verbatim>\<open>Received ${tabs.length} tabs to group\<close> after a
  check mark, which converts \<^verbatim>\<open>tabs.length\<close> to a string and throws when that has no
  primitive value. The result is the string of the substitution.
\<close>

definition received_log :: "jsval \<Rightarrow> exn + jsstring" where
  "received_log tabs = ToString (get_prop tabs (js ''length''))"

text \<open>The \<^verbatim>\<open>try\<close> block: what it throws or responds, if the upstream settles.\<close>

definition try_block :: "upstream \<Rightarrow> jsval \<Rightarrow> (exn + http_response) option \<times> event list" where
  "try_block ai req_body =
     (case InputValidator req_body of
        Inl e \<Rightarrow> (Some (Inl e), [])
      | Inr (Inl early) \<Rightarrow> (Some (Inr early), [])
      | Inr (Inr tabs) \<Rightarrow>
          (case received_log tabs of
             Inl e \<Rightarrow> (Some (Inl e), [])
           | Inr received \<Rightarrow>
               (case PromptBuilder tabs of
                  Inl e \<Rightarrow> (Some (Inl e), [])
                | Inr req \<Rightarrow>
                    (case RetryingInvoker ai req of
                       (Returned response, log) \<Rightarrow> (Some (process_response response), log)
                     | (Thrown e, log) \<Rightarrow> (Some (Inl e), log)
                     | (NeverSettles, log) \<Rightarrow> (None, log)))))"

text \<open>The catch-all (lines 162 to 169): an exception of the block becomes a 500.\<close>

definition catch_all :: "(type_error \<Rightarrow> jsstring) \<Rightarrow> exn + http_response \<Rightarrow> http_response" where
  "catch_all tmsg r =
     (case r of
        Inr res \<Rightarrow> res
      | Inl error \<Rightarrow>
          Response 500
            (Obj [(js ''error'', Str (js ''Something went wrong'')),
                  (js ''details'', Str (message tmsg error))]))"

definition group_tabs ::
  "(type_error \<Rightarrow> jsstring) \<Rightarrow> upstream \<Rightarrow> jsval \<Rightarrow> http_response option \<times> event list" where
  "group_tabs tmsg ai req_body =
     (case try_block ai req_body of
        (None, log) \<Rightarrow> (None, log)
      | (Some r, log) \<Rightarrow> (Some (catch_all tmsg r), log))"

section \<open>The specification's words\<close>

subsection \<open>The tabs of the specification\<close>

text \<open>
  The integers that a Number holds exactly and tells apart from their neighbours, those
  of \<^verbatim>\<open>Number.isSafeInteger\<close>, and an integer in plain decimal digits.
\<close>

definition safe_integer :: "int \<Rightarrow> bool" where
  "safe_integer n \<longleftrightarrow> \<bar>n\<bar> < 2 ^ 53"

definition decimal :: "int \<Rightarrow> jsstring" where
  "decimal n = (if n < 0 then js ''-'' @ digits_of (- n) else digits_of n)"

text \<open>
  The tab of the specification's data model, and what it means for a JavaScript value of
  the request to be that tab: it has the three properties, an integer that a Number
  holds exactly, a string and a string. Other properties are allowed.
\<close>

record tab =
  tab_id :: int
  title :: jsstring
  url :: jsstring




subsection \<open>The groups of the specification and their JSON text\<close>

text \<open>
  A mapping from category names to lists of integer tab ids, as an association list in
  the order of its members; it is well formed when its names are distinct and its ids are
  integers that a Number holds exactly. \<open>groups_value\<close> is the JavaScript object it
  denotes.
\<close>

type_synonym groups = "(jsstring \<times> int list) list"

definition well_formed :: "groups \<Rightarrow> bool" where
  "well_formed M \<longleftrightarrow> distinct (map fst M) \<and> list_all (\<lambda>m. list_all safe_integer (snd m)) M"

definition groups_value :: "groups \<Rightarrow> jsval" where
  "groups_value M = Obj (map (\<lambda>(k, ns). (k, Arr (map (\<lambda>n. Num (js_of_int n)) ns))) M)"

text \<open>
  The JSON text of a mapping, without optional white space: a name between quotes, with
  \<^verbatim>\<open>"\<close> and \<^verbatim>\<open>\\<close> behind a backslash, the control characters as
  \<^verbatim>\<open>\b \t \n \f \r\<close> or \<^verbatim>\<open>\u00XX\<close>, and every other code unit as it is; an integer
  in decimal digits. It is the text that \<^verbatim>\<open>JSON.stringify\<close> writes, except that
  \<^verbatim>\<open>JSON.stringify\<close> also escapes a surrogate that has no partner.
\<close>

definition hex_char :: "jschar \<Rightarrow> jschar" where
  "hex_char d = (if d < 10 then 0x30 + d else 0x61 + (d - 10))"

definition escape_char :: "jschar \<Rightarrow> jsstring" where
  "escape_char c =
     (if c = 0x22 then [0x5C, 0x22]
      else if c = 0x5C then [0x5C, 0x5C]
      else if c = 0x08 then [0x5C, 0x62]
      else if c = 0x09 then [0x5C, 0x74]
      else if c = 0x0A then [0x5C, 0x6E]
      else if c = 0x0C then [0x5C, 0x66]
      else if c = 0x0D then [0x5C, 0x72]
      else if c < 0x20 then [0x5C, 0x75, 0x30, 0x30, hex_char (c div 16), hex_char (c mod 16)]
      else [c])"

definition quote_string :: "jsstring \<Rightarrow> jsstring" where
  "quote_string k = [0x22] @ concat (map escape_char k) @ [0x22]"

definition render_array :: "int list \<Rightarrow> jsstring" where
  "render_array ns = js ''['' @ join_with (js '','') (map decimal ns) @ js '']''"

definition render_member :: "jsstring \<times> int list \<Rightarrow> jsstring" where
  "render_member m = quote_string (fst m) @ js '':'' @ render_array (snd m)"

definition render_groups :: "groups \<Rightarrow> jsstring" where
  "render_groups M = js ''{'' @ join_with (js '','') (map render_member M) @ js ''}''"

text \<open>
  The text \<^verbatim>\<open>```json\<close>, newline, the JSON text, newline, \<^verbatim>\<open>```\<close> inside a prose:
  \<open>pre\<close> before it and \<open>post\<close> after it.
\<close>

definition fenced :: "jsstring \<Rightarrow> jsstring \<Rightarrow> jsstring \<Rightarrow> jsstring" where
  "fenced pre J post = pre @ js ''```json\<newline>'' @ J @ js ''\<newline>```'' @ post"

text \<open>
  \<open>opens s\<close>: the text \<open>s\<close> starts with a fence opener, three backticks, an optional
  \<^verbatim>\<open>json\<close>, optional white space and \<^verbatim>\<open>{\<close>. \<open>has_opener s\<close>: one starts somewhere in
  \<open>s\<close>.
\<close>

definition opens :: "jsstring \<Rightarrow> bool" where
  "opens s =
     (prefix (js ''```'') s
      \<and> (let r = drop (length (js ''```'')) s;
              r' = (if prefix (js ''json'') r then drop (length (js ''json'')) r else r)
          in prefix (js ''{'') (dropWhile is_space r')))"

fun has_opener :: "jsstring \<Rightarrow> bool" where
  "has_opener [] = False"
| "has_opener (c # cs) = (opens (c # cs) \<or> has_opener cs)"

text \<open>
  \<open>closes s\<close>: the text \<open>s\<close> starts with a fence closer after an object, \<^verbatim>\<open>}\<close>,
  optional white space and three backticks. \<open>has_closer s\<close>: one starts somewhere in
  \<open>s\<close>.
\<close>

definition closes :: "jsstring \<Rightarrow> bool" where
  "closes s =
     (case s of
        [] \<Rightarrow> False
      | c # r \<Rightarrow> c = 0x7D \<and> prefix (js ''```'') (dropWhile is_space r))"

fun has_closer :: "jsstring \<Rightarrow> bool" where
  "has_closer [] = False"
| "has_closer (c # cs) = (closes (c # cs) \<or> has_closer cs)"

section \<open>Auxiliary notions\<close>

text \<open>A character that ends a number: not a digit, a point or an exponent mark.\<close>

definition ends_number :: "jsstring \<Rightarrow> bool" where
  "ends_number r =
     (case r of
        [] \<Rightarrow> True
      | x # xs \<Rightarrow> \<not> is_digit x \<and> x \<noteq> 0x2E \<and> x \<noteq> 0x65 \<and> x \<noteq> 0x45)"

text \<open>The values of a list of ids and of a member of a mapping.\<close>

abbreviation ids_value :: "int list \<Rightarrow> jsval list" where
  "ids_value ns \<equiv> map (\<lambda>n. Num (js_of_int n)) ns"

abbreviation member_value :: "jsstring \<times> int list \<Rightarrow> jsstring \<times> jsval" where
  "member_value m \<equiv> (fst m, Arr (ids_value (snd m)))"

text \<open>
  In JSON text a backtick can only stand inside a string literal, and a string literal
  holds no control character: after every backtick a quote comes before any control
  character. \<open>ticks_ok\<close> says so; the text \<^verbatim>\<open>```json\<close> followed by a newline breaks it.
\<close>

fun closed_quote :: "jsstring \<Rightarrow> bool" where
  "closed_quote [] = False"
| "closed_quote (c # cs) = (c = 0x22 \<or> (0x20 \<le> c \<and> closed_quote cs))"

fun ticks_ok :: "jsstring \<Rightarrow> bool" where
  "ticks_ok [] = True"
| "ticks_ok (c # cs) = ((c = 0x60 \<longrightarrow> closed_quote cs) \<and> ticks_ok cs)"

text \<open>\<open>consumes_ok s rest\<close>: reading \<open>s\<close> down to \<open>rest\<close> went over text that is \<open>ticks_ok\<close>.\<close>

definition consumes_ok :: "jsstring \<Rightarrow> jsstring \<Rightarrow> bool" where
  "consumes_ok s rest \<longleftrightarrow> (\<exists>p. s = p @ rest \<and> ticks_ok p)"

section \<open>Properties\<close>

subsection \<open>Auxiliary facts\<close>

lemma js_simps:
  "js [] = []"
  "js (c # cs) = of_char c # js cs"
  by (simp_all add: js_def)

lemma of_char_nat_less: "(of_char c :: nat) < 256"
proof -
  have "(of_char c :: nat) mod 256 = of_char c" by simp
  then show ?thesis by (metis mod_less_divisor zero_less_numeral)
qed

lemma unat_of_char: "unat (of_char c :: 16 word) = of_char c"
proof -
  have "(of_char c :: 16 word) = of_nat (of_char c)"
    by (simp add: of_nat_of_char)
  then have "unat (of_char c :: 16 word) = (of_char c :: nat) mod 65536"
    by (simp add: unat_of_nat)
  moreover have "(of_char c :: nat) < 65536"
    using of_char_nat_less [of c] by linarith
  ultimately show ?thesis by (simp only: mod_less)
qed

lemma of_char_word_eq_iff [simp]: "(of_char c :: 16 word) = of_char d \<longleftrightarrow> c = d"
proof
  assume "(of_char c :: 16 word) = of_char d"
  then have "unat (of_char c :: 16 word) = unat (of_char d :: 16 word)" by simp
  then show "c = d" by (simp add: unat_of_char)
qed simp

lemma js_eq_iff [simp]: "js a = js b \<longleftrightarrow> a = b"
  by (simp add: js_def inj_map_eq_map inj_on_def)

subsection \<open>Integers that a Number holds exactly\<close>

text \<open>
  An integer of magnitude at most \<open>2 ^ 53\<close> is its own nearest binary64 value, and
  below \<open>2 ^ 53\<close> no other decimal with as few digits has the same value: such an
  integer is printed in its plain decimal digits.
\<close>

lemma strip_twos_Finite: "\<exists>m' e'. strip_twos m e = Finite False m' e' \<and> (0 < m \<longrightarrow> 0 < m')"
proof (induction m e rule: strip_twos.induct)
  case (1 m e)
  show ?case
  proof (cases "0 < m \<and> even m")
    case True
    then have "0 < m div 2" by presburger
    with 1 True show ?thesis by (subst strip_twos.simps) simp
  next
    case False
    have "strip_twos m e = Finite False m e"
      by (subst strip_twos.simps) (simp only: False if_False)
    then show ?thesis by simp
  qed
qed

lemma num_is_zero_with_sign [simp]: "num_is_zero (with_sign s x) = num_is_zero x"
  by (cases x) simp_all

lemma with_sign_NaN [simp]: "with_sign s x = NaN \<longleftrightarrow> x = NaN"
  by (cases x) simp_all

lemma num_is_zero_finite_num [simp]: "num_is_zero (finite_num m e) \<longleftrightarrow> m \<le> 0"
  using strip_twos_Finite [of m e] by (auto simp: finite_num_def)

lemma finite_num_not_NaN [simp]: "finite_num m e \<noteq> NaN"
  using strip_twos_Finite [of m e] by (auto simp: finite_num_def)

lemma strip_twos_value:
  "strip_twos m e = Finite False m' e' \<Longrightarrow> e \<le> e' \<and> m = m' * 2 ^ nat (e' - e) \<and> (0 < m \<longrightarrow> odd m')"
proof (induction m e rule: strip_twos.induct)
  case (1 m e)
  show ?case
  proof (cases "0 < m \<and> even m")
    case True
    then have s: "strip_twos m e = strip_twos (m div 2) (e + 1)"
      by (subst strip_twos.simps) simp
    with "1.prems" have "strip_twos (m div 2) (e + 1) = Finite False m' e'" by simp
    with "1.IH" True
    have ih: "e + 1 \<le> e'" "m div 2 = m' * 2 ^ nat (e' - (e + 1))" "0 < m div 2 \<longrightarrow> odd m'"
      by simp_all
    from ih(1) have "nat (e' - e) = Suc (nat (e' - (e + 1)))" by linarith
    moreover from True have "m = 2 * (m div 2)" by presburger
    moreover from True have "0 < m div 2" by presburger
    ultimately show ?thesis using ih by simp
  next
    case False
    have "strip_twos m e = Finite False m e"
      by (subst strip_twos.simps) (simp only: False if_False)
    with "1.prems" False show ?thesis by auto
  qed
qed

lemma finite_num_inj:
  assumes "finite_num a 0 = finite_num c 0" and "0 \<le> a" and "0 \<le> c"
  shows "a = c"
proof -
  obtain m' e' where f: "finite_num a 0 = Finite False m' e'"
    using strip_twos_Finite [of a 0] by (cases "a \<le> 0") (auto simp: finite_num_def)
  show ?thesis
  proof (cases "a = 0")
    case True
    with assms(1) have "num_is_zero (finite_num c 0)" by (simp add: finite_num_def)
    with True assms(3) show ?thesis by simp
  next
    case False
    with assms(2) have pa: "0 < a" by simp
    have "\<not> num_is_zero (finite_num a 0)" using pa by simp
    with assms(1) have "\<not> num_is_zero (finite_num c 0)" by simp
    then have pc: "0 < c" by simp
    from f pa have "strip_twos a 0 = Finite False m' e'" by (simp add: finite_num_def)
    then have 1: "a = m' * 2 ^ nat e'" using strip_twos_value by fastforce
    from f assms(1) pc have "strip_twos c 0 = Finite False m' e'" by (simp add: finite_num_def)
    then have 2: "c = m' * 2 ^ nat e'" using strip_twos_value by fastforce
    from 1 2 show ?thesis by simp
  qed
qed

lemma finite_num_double: "0 < m \<Longrightarrow> finite_num (2 * m) (e - 1) = finite_num m e"
  by (simp add: finite_num_def) (subst strip_twos.simps, simp)

lemma finite_num_scale: "0 < m \<Longrightarrow> finite_num (m * 2 ^ k) (e - int k) = finite_num m e"
proof (induction k arbitrary: e)
  case 0
  then show ?case by simp
next
  case (Suc k)
  have "finite_num (m * 2 ^ Suc k) (e - int (Suc k)) = finite_num (2 * (m * 2 ^ k)) ((e - int k) - 1)"
    by (simp add: algebra_simps)
  also have "\<dots> = finite_num (m * 2 ^ k) (e - int k)"
    using Suc.prems by (intro finite_num_double) simp
  also have "\<dots> = finite_num m e" using Suc by simp
  finally show ?case .
qed

lemma bitlen_bounds: "0 < n \<Longrightarrow> 1 \<le> bitlen n \<and> 2 ^ nat (bitlen n - 1) \<le> n \<and> n < 2 ^ nat (bitlen n)"
proof (induction n rule: bitlen.induct)
  case (1 n)
  show ?case
  proof (cases "n = 1")
    case True
    have "bitlen 1 = 1" by (subst bitlen.simps, subst bitlen.simps) simp
    with True show ?thesis by simp
  next
    case False
    with "1.prems" have p: "0 < n div 2" by presburger
    with "1.IH" "1.prems" have ih: "1 \<le> bitlen (n div 2)" "2 ^ nat (bitlen (n div 2) - 1) \<le> n div 2"
      "n div 2 < 2 ^ nat (bitlen (n div 2))" by simp_all
    have b: "bitlen n = 1 + bitlen (n div 2)" using "1.prems" by (subst bitlen.simps) simp
    from ih(1) have n1: "nat (bitlen n - 1) = Suc (nat (bitlen (n div 2) - 1))" unfolding b by linarith
    from ih(1) have n2: "nat (bitlen n) = Suc (nat (bitlen (n div 2)))" unfolding b by linarith
    have "2 * 2 ^ nat (bitlen (n div 2) - 1) \<le> n" using ih(2) by linarith
    moreover have "n < 2 * 2 ^ nat (bitlen (n div 2))" using ih(3) by linarith
    ultimately show ?thesis using ih(1) b n1 n2 by simp
  qed
qed

lemma bitlen_1: "bitlen 1 = 1"
  by (subst bitlen.simps, subst bitlen.simps) simp

lemma floor_log2_int:
  assumes "0 < n"
  shows "floor_log2 n 1 = bitlen n - 1"
  using bitlen_bounds [OF assms] by (simp add: floor_log2_def bitlen_1 Let_def)

lemma round_half_even_exact: "0 < d \<Longrightarrow> round_half_even (q * d) d = q"
  by (simp add: round_half_even_def)

lemma round_half_even_1: "round_half_even x 1 = x"
  by (simp add: round_half_even_def)

lemma round_half_even_ge: "0 < d \<Longrightarrow> q * d \<le> x \<Longrightarrow> q \<le> round_half_even x d"
proof -
  assume d: "0 < d" and q: "q * d \<le> x"
  have "q * d div d \<le> x div d"
    using q d by (rule zdiv_mono1)
  then have "q \<le> x div d"
    using d by simp
  then show ?thesis by (auto simp: round_half_even_def Let_def)
qed

lemma round_to_double_exact:
  assumes "0 \<le> c" and "c \<le> 2 ^ 53"
  shows "round_to_double c 1 = finite_num c 0"
proof (cases "c = 0")
  case True
  then show ?thesis by (simp add: round_to_double_def finite_num_def)
next
  case False
  with assms have pos: "0 < c" by simp
  define F where "F = bitlen c - 1"
  from bitlen_bounds [OF pos] have F0: "0 \<le> F" and lo: "2 ^ nat F \<le> c" and hi: "c < 2 ^ nat (F + 1)"
    by (simp_all add: F_def)
  have fl: "floor_log2 c 1 = F" using floor_log2_int [OF pos] by (simp add: F_def)
  have F53: "F \<le> 53"
  proof (rule ccontr)
    assume "\<not> F \<le> 53"
    then have "54 \<le> nat F" by simp
    then have "(2 :: int) ^ 54 \<le> 2 ^ nat F" by (intro power_increasing) simp_all
    with lo assms(2) show False by simp
  qed
  show ?thesis
  proof (cases "F = 53")
    case True
    with lo assms(2) have c: "c = 2 ^ 53" by simp
    have "finite_num (2 ^ 52 * 2 ^ 1) (1 - int 1) = finite_num (2 ^ 52) 1"
      by (rule finite_num_scale) simp
    then have "finite_num (2 ^ 53) 0 = finite_num (2 ^ 52) 1" by simp
    then show ?thesis
      using fl True pos by (simp add: round_to_double_def c round_half_even_def)
  next
    case False
    with F53 have le: "F \<le> 52" by simp
    show ?thesis
    proof (cases "F = 52")
      case True
      then show ?thesis using fl pos by (simp add: round_to_double_def round_half_even_1)
    next
      case False
      with le have neg: "F - 52 < 0" by simp
      have "finite_num (c * 2 ^ nat (52 - F)) (0 - int (nat (52 - F))) = finite_num c 0"
        using pos by (rule finite_num_scale)
      moreover have "0 - int (nat (52 - F)) = F - 52" using le by simp
      moreover have "max (F - 52) (- 1074) = F - 52" using F0 by simp
      ultimately show ?thesis
        using fl pos neg by (simp add: round_to_double_def round_half_even_1 Let_def)
    qed
  qed
qed

lemma round_to_double_large:
  assumes "2 ^ 53 \<le> c"
  shows "round_to_double c 1 = Infinite False
       \<or> (\<exists>m E. round_to_double c 1 = finite_num m E \<and> 2 ^ 52 \<le> m \<and> 1 \<le> E)"
proof -
  have "(0 :: int) < 2 ^ 53" by simp
  with assms have pos: "0 < c" by linarith
  define F where "F = bitlen c - 1"
  from bitlen_bounds [OF pos] have F0: "0 \<le> F" and lo: "2 ^ nat F \<le> c" and hi: "c < 2 ^ nat (F + 1)"
    by (simp_all add: F_def)
  have fl: "floor_log2 c 1 = F" using floor_log2_int [OF pos] by (simp add: F_def)
  have F53: "53 \<le> F"
  proof (rule ccontr)
    assume "\<not> 53 \<le> F"
    then have "nat (F + 1) \<le> 53" by simp
    then have "(2 :: int) ^ nat (F + 1) \<le> 2 ^ 53" by (intro power_increasing) simp_all
    with hi assms show False by simp
  qed
  define E where "E = F - 52"
  have E1: "1 \<le> E" using F53 by (simp add: E_def)
  have "nat F = 52 + nat E" using F53 by (simp add: E_def)
  then have "(2 :: int) ^ nat F = 2 ^ 52 * 2 ^ nat E" by (simp add: power_add)
  with lo have "2 ^ 52 * 2 ^ nat E \<le> c" by simp
  then have m: "2 ^ 52 \<le> round_half_even c (2 ^ nat E)"
    by (intro round_half_even_ge) simp_all
  have "max (F - 52) (- 1074) = E" using F53 by (simp add: E_def)
  then show ?thesis
    using fl pos E1 m by (auto simp: round_to_double_def Let_def)
qed

lemma round_to_double_safe:
  assumes "0 \<le> c" and "0 < n" and "n < 2 ^ 53" and "round_to_double c 1 = finite_num n 0"
  shows "c = n"
proof (cases "c \<le> 2 ^ 53")
  case True
  with assms(1,4) have "finite_num c 0 = finite_num n 0" by (simp add: round_to_double_exact)
  with assms show ?thesis by (intro finite_num_inj) simp_all
next
  case False
  then have big: "2 ^ 53 \<le> c" by simp
  obtain m' e' where a: "strip_twos n 0 = Finite False m' e'"
    using strip_twos_Finite [of n 0] by auto
  then have fn: "finite_num n 0 = Finite False m' e'"
    using assms(2) by (simp add: finite_num_def)
  from round_to_double_large [OF big] assms(4) fn
  obtain m E where eq: "finite_num m E = Finite False m' e'" and m: "2 ^ 52 \<le> m" and E: "1 \<le> E"
    by auto
  have "(0 :: int) < 2 ^ 52" by simp
  with m have mpos: "0 < m" by linarith
  with eq have b: "strip_twos m E = Finite False m' e'"
    by (simp add: finite_num_def)
  from strip_twos_value [OF a] have 1: "n = m' * 2 ^ nat e'" and e0: "0 \<le> e'" by simp_all
  from strip_twos_value [OF b] have 2: "m = m' * 2 ^ nat (e' - E)" and e1: "E \<le> e'" by simp_all
  have "nat e' = nat (e' - E) + nat E" using e1 E by simp
  then have n: "n = m * 2 ^ nat E" using 1 2 by (simp add: power_add)
  have "(2 :: int) ^ 1 \<le> 2 ^ nat E" using E by (intro power_increasing) simp_all
  then have "2 ^ 52 * 2 \<le> m * 2 ^ nat E"
    using m by (intro mult_mono) simp_all
  with n assms(3) show ?thesis by simp
qed

lemma round_to_double_nonzero:
  assumes "0 < c"
  shows "\<not> num_is_zero (round_to_double c 1)"
proof (cases "c \<le> 2 ^ 53")
  case True
  with assms show ?thesis by (simp add: round_to_double_exact)
next
  case False
  then have "2 ^ 53 \<le> c" by simp
  from round_to_double_large [OF this] show ?thesis
  proof (elim disjE exE conjE)
    fix m E
    assume r: "round_to_double c 1 = finite_num m E" and m: "2 ^ 52 \<le> m"
    have "(0 :: int) < 2 ^ 52" by simp
    with m have "0 < m" by linarith
    with r show ?thesis by simp
  qed simp
qed

lemma js_of_int_exact:
  "\<bar>n\<bar> \<le> 2 ^ 53 \<Longrightarrow> js_of_int n = with_sign (n < 0) (finite_num \<bar>n\<bar> 0)"
  by (simp add: js_of_int_def round_to_double_exact)

lemma js_of_int_inj:
  assumes "\<bar>a\<bar> \<le> 2 ^ 53" and "\<bar>b\<bar> \<le> 2 ^ 53" and "js_of_int a = js_of_int b"
  shows "a = b"
proof -
  obtain ma ea where fa: "finite_num \<bar>a\<bar> 0 = Finite False ma ea"
    using strip_twos_Finite [of "\<bar>a\<bar>" 0] by (cases "\<bar>a\<bar> \<le> 0") (auto simp: finite_num_def)
  obtain mb eb where fb: "finite_num \<bar>b\<bar> 0 = Finite False mb eb"
    using strip_twos_Finite [of "\<bar>b\<bar>" 0] by (cases "\<bar>b\<bar> \<le> 0") (auto simp: finite_num_def)
  from assms fa fb have eq: "(a < 0) = (b < 0)" "ma = mb" "ea = eb"
    by (simp_all add: js_of_int_exact)
  with fa fb have "finite_num \<bar>a\<bar> 0 = finite_num \<bar>b\<bar> 0" by simp
  then have "\<bar>a\<bar> = \<bar>b\<bar>" by (intro finite_num_inj) simp_all
  with eq(1) show ?thesis by linarith
qed

lemma num_is_zero_js_of_int [simp]: "num_is_zero (js_of_int n) \<longleftrightarrow> n = 0"
proof (cases "n = 0")
  case True
  then show ?thesis by (simp add: js_of_int_def round_to_double_def)
next
  case False
  then have "0 < \<bar>n\<bar>" by simp
  from round_to_double_nonzero [OF this] False show ?thesis
    by (simp add: js_of_int_def)
qed

lemma num_is_zero_js_of_nat [simp]: "num_is_zero (js_of_nat n) \<longleftrightarrow> n = 0"
  by (simp add: js_of_nat_def)

lemma digit_cases:
  "0 \<le> d \<Longrightarrow> d < 10 \<Longrightarrow>
     d = 0 \<or> d = 1 \<or> d = 2 \<or> d = 3 \<or> d = 4 \<or> d = 5 \<or> d = 6 \<or> d = 7 \<or> d = 8 \<or> d = (9 :: int)"
  by presburger

lemma digit_char_props:
  assumes "0 \<le> d" and "d < 10"
  shows "is_digit (digit_char d)" and "digit_val (digit_char d) = d"
    and "digit_char d = 0x30 \<longleftrightarrow> d = 0"
    and "\<not> is_json_ws (digit_char d)"
  using digit_cases [OF assms]
  by (elim disjE; simp add: is_digit_def digit_char_def digit_val_def is_json_ws_def)+

lemma digits_of_digits: "0 \<le> n \<Longrightarrow> c \<in> set (digits_of n) \<Longrightarrow> is_digit c"
proof (induction n rule: digits_of.induct)
  case (1 n)
  show ?case
  proof (cases "n < 10")
    case True
    then have "digits_of n = [digit_char n]"
      by (subst digits_of.simps) simp
    with True "1.prems" show ?thesis
      by (simp add: digit_char_props)
  next
    case False
    then have d: "digits_of n = digits_of (n div 10) @ [digit_char (n mod 10)]"
      by (subst digits_of.simps) simp
    from False have "0 \<le> n div 10" "0 \<le> n mod 10" "n mod 10 < 10" by simp_all
    with False "1.prems" "1.IH" d show ?thesis
      by (auto simp: digit_char_props)
  qed
qed

lemma digits_of_not_Nil [simp]: "digits_of n \<noteq> []"
  by (subst digits_of.simps) simp

lemma digits_val_snoc: "digits_val (ds @ [d]) = 10 * digits_val ds + digit_val d"
  by (simp add: digits_val_def)

lemma digits_val_digits_of: "0 \<le> n \<Longrightarrow> digits_val (digits_of n) = n"
proof (induction n rule: digits_of.induct)
  case (1 n)
  show ?case
  proof (cases "n < 10")
    case True
    with "1.prems" show ?thesis
      by (subst digits_of.simps) (simp add: digits_val_def digit_char_props)
  next
    case False
    then have "digits_val (digits_of n) = 10 * digits_val (digits_of (n div 10)) + digit_val (digit_char (n mod 10))"
      by (subst digits_of.simps) (simp add: digits_val_snoc)
    moreover have "0 \<le> n div 10" using "1.prems" by simp
    ultimately show ?thesis
      using False "1.IH" by (simp add: digit_char_props)
  qed
qed

lemma hd_digits_of: "0 < n \<Longrightarrow> hd (digits_of n) \<noteq> 0x30"
proof (induction n rule: digits_of.induct)
  case (1 n)
  show ?case
  proof (cases "n < 10")
    case True
    with "1.prems" show ?thesis
      by (subst digits_of.simps) (simp add: digit_char_props)
  next
    case False
    then have "0 < n div 10" by simp
    with False "1.IH" have "hd (digits_of (n div 10)) \<noteq> 0x30" by simp
    with False show ?thesis
      by (subst digits_of.simps) simp
  qed
qed

lemma digits_of_0: "digits_of 0 = [0x30]"
  by (subst digits_of.simps) (simp add: digit_char_def)

lemma digits_of_times_10: "0 < a \<Longrightarrow> digits_of (10 * a) = digits_of a @ [0x30]"
  by (subst digits_of.simps) (simp add: digit_char_def)

lemma digits_of_times_pow: "0 < a \<Longrightarrow> digits_of (a * 10 ^ z) = digits_of a @ replicate z 0x30"
proof (induction z)
  case 0
  then show ?case by simp
next
  case (Suc z)
  have "digits_of (a * 10 ^ Suc z) = digits_of (10 * (a * 10 ^ z))"
    by (simp add: mult.commute mult.left_commute)
  also have "\<dots> = digits_of (a * 10 ^ z) @ [0x30]"
    using Suc.prems by (intro digits_of_times_10) simp
  finally show ?case using Suc by (simp add: replicate_append_same)
qed

lemma length_digits_of: "0 < k \<Longrightarrow> n < 10 ^ k \<Longrightarrow> length (digits_of n) \<le> k"
proof (induction n arbitrary: k rule: digits_of.induct)
  case (1 n)
  show ?case
  proof (cases "n < 10")
    case True
    with "1.prems" show ?thesis by (subst digits_of.simps) simp
  next
    case False
    with "1.prems" obtain j where k: "k = Suc j"
      by (cases k) auto
    with False "1.prems" have "0 < j"
      by (cases j) auto
    moreover from k "1.prems" have "n < 10 * 10 ^ j"
      by simp
    then have "n div 10 < 10 ^ j"
      by presburger
    ultimately have "length (digits_of (n div 10)) \<le> j"
      using "1.IH" False by blast
    with False k show ?thesis by (subst digits_of.simps) simp
  qed
qed

lemma last_digits_of: "0 \<le> n \<Longrightarrow> last (digits_of n) = 0x30 \<longleftrightarrow> n mod 10 = 0"
proof (cases "n < 10")
  case True
  assume "0 \<le> n"
  with True show ?thesis by (subst digits_of.simps) (simp add: digit_char_props)
next
  case False
  assume "0 \<le> n"
  have "0 \<le> n mod 10" "n mod 10 < 10" by simp_all
  with False show ?thesis by (subst digits_of.simps) (simp add: digit_char_props)
qed

lemma drop_zeros_id: "ds \<noteq> [] \<Longrightarrow> last ds \<noteq> 0x30 \<Longrightarrow> drop_zeros ds = ds"
  by (cases ds rule: rev_cases) (simp_all add: drop_zeros_def)

lemma decompose_10: "0 < (n :: int) \<Longrightarrow> \<exists>s z. n = s * 10 ^ z \<and> 0 < s \<and> s mod 10 \<noteq> 0"
proof (induction "nat n" arbitrary: n rule: less_induct)
  case less
  show ?case
  proof (cases "n mod 10 = 0")
    case False
    with less.prems have "n = n * 10 ^ 0 \<and> 0 < n \<and> n mod 10 \<noteq> 0" by simp
    then show ?thesis by blast
  next
    case True
    with less.prems have p: "0 < n div 10" by presburger
    then have "nat (n div 10) < nat n" using less.prems by simp
    from less.hyps [OF this p] obtain s z where "n div 10 = s * 10 ^ z" "0 < s" "s mod 10 \<noteq> 0"
      by blast
    moreover from True have "n = 10 * (n div 10)" by presburger
    ultimately have "n = s * 10 ^ Suc z \<and> 0 < s \<and> s mod 10 \<noteq> 0" by simp
    then show ?thesis by blast
  qed
qed

lemma not_dvd_pow10:
  assumes "0 < (s :: int)" and "s mod 10 \<noteq> 0" and "z < j"
  shows "(s * 10 ^ z) mod 10 ^ j \<noteq> 0"
proof
  assume "(s * 10 ^ z) mod 10 ^ j = 0"
  then have "(10 :: int) ^ j dvd s * 10 ^ z" by (simp add: mod_eq_0_iff_dvd)
  moreover obtain d where j: "j = Suc (z + d)" using less_imp_Suc_add [OF assms(3)] by blast
  ultimately have "(10 :: int) ^ Suc d * 10 ^ z dvd s * 10 ^ z" by (simp add: power_add mult.commute)
  then have "(10 :: int) ^ Suc d dvd s" by simp
  moreover have "(10 :: int) dvd 10 ^ Suc d" by simp
  ultimately have "10 dvd s" by (rule dvd_trans [rotated])
  with assms(2) show False by (simp add: mod_eq_0_iff_dvd)
qed

lemma shortest_from_skip:
  "\<forall>k \<in> set xs. digits_at m e p k = None \<Longrightarrow>
     shortest_from m e p (xs @ ys) = shortest_from m e p ys"
  by (induction xs) simp_all

lemma mk_num_int: "0 \<le> c \<Longrightarrow> mk_num c (int j) = round_to_double (c * 10 ^ j) 1"
  by (simp add: mk_num_def)

lemma shortest_digits_int:
  assumes n: "0 < n" "n < 2 ^ 53"
    and st: "strip_twos n 0 = Finite False m e"
    and dec: "n = s * 10 ^ z" "0 < s" "s mod 10 \<noteq> 0"
  shows "shortest_digits m e = (s, int z)"
proof -
  from strip_twos_value [OF st] n(1) have e0: "0 \<le> e" and nm: "n = m * 2 ^ nat e"
    by simp_all
  have fn: "finite_num n 0 = Finite False m e"
    using n(1) st by (simp add: finite_num_def)
  define L where "L = length (digits_of n)"
  define k0 where "k0 = length (digits_of s)"
  have Lk: "L = k0 + z"
    using digits_of_times_pow [OF dec(2), of z] dec(1) by (simp add: L_def k0_def)
  have k0pos: "0 < k0"
    by (simp add: k0_def)
  have "n < 10 ^ 16"
    using n(2) by simp
  then have L16: "L \<le> 16"
    unfolding L_def by (intro length_digits_of) simp_all
  have p: "decimal_exponent n 1 = int L"
    using n(1) by (simp add: decimal_exponent_def L_def)
  have none: "digits_at m e (int L) k = None" if k: "k < int k0" for k
  proof -
    define j where "j = nat (int L - k)"
    have jz: "z < j" using k Lk by (simp add: j_def)
    have d: "k - int L < 0" using k Lk by simp
    have jd: "int j = - (k - int L)" using d by (simp add: j_def)
    have r: "n mod 10 ^ j \<noteq> 0"
      unfolding dec(1) using dec(2,3) jz by (rule not_dvd_pow10)
    have r2: "n mod 10 ^ j < 10 ^ j" by simp
    have r0: "0 \<le> n mod 10 ^ j" by simp
    have lo0: "0 \<le> n div 10 ^ j" using n(1) by (simp add: pos_imp_zdiv_nonneg_iff)
    have split: "n = n div 10 ^ j * 10 ^ j + n mod 10 ^ j"
      by (simp only: div_mult_mod_eq)
    have a: "mk_num (n div 10 ^ j) (int j) \<noteq> Finite False m e"
    proof
      assume "mk_num (n div 10 ^ j) (int j) = Finite False m e"
      then have "round_to_double (n div 10 ^ j * 10 ^ j) 1 = finite_num n 0"
        using lo0 fn by (simp add: mk_num_int)
      then have "n div 10 ^ j * 10 ^ j = n"
        using lo0 n by (intro round_to_double_safe) simp_all
      with split r show False by linarith
    qed
    have b: "mk_num (n div 10 ^ j + 1) (int j) \<noteq> Finite False m e"
    proof
      assume "mk_num (n div 10 ^ j + 1) (int j) = Finite False m e"
      then have "round_to_double ((n div 10 ^ j + 1) * 10 ^ j) 1 = finite_num n 0"
        using lo0 fn by (simp add: mk_num_int)
      then have "(n div 10 ^ j + 1) * 10 ^ j = n"
        using lo0 n by (intro round_to_double_safe) simp_all
      then have "n div 10 ^ j * 10 ^ j + 10 ^ j = n" by (simp add: algebra_simps)
      with split r2 show False by linarith
    qed
    have "nat (int L - k) = j" by (simp add: j_def)
    moreover have "int L - k = int j" using jd by simp
    ultimately show ?thesis
      using d e0 nm [symmetric] a b by (simp add: digits_at_def Let_def)
  qed
  have some: "digits_at m e (int L) (int k0) = Some s"
  proof (cases "z = 0")
    case True
    then have sn: "s = n" and Lk0: "L = k0" using dec(1) Lk by simp_all
    have "mk_num n 0 = Finite False m e"
      using n fn by (simp add: mk_num_def round_to_double_exact)
    then show ?thesis
      using e0 nm [symmetric] sn Lk0 by (simp add: digits_at_def Let_def)
  next
    case False
    then have d: "int k0 - int L < 0" using Lk by simp
    have zz: "nat (int L - int k0) = z" "int L - int k0 = int z" using Lk by simp_all
    have "mk_num s (int z) = Finite False m e"
      using n fn dec by (simp add: mk_num_int round_to_double_exact)
    moreover have "n div 10 ^ z = s" "n mod 10 ^ z = 0" using dec(1) by simp_all
    ultimately show ?thesis
      using d e0 nm [symmetric] zz by (simp add: digits_at_def Let_def)
  qed
  have "1 \<le> int k0" "int k0 \<le> 17" using k0pos Lk L16 by simp_all
  then have "[1 .. 17] = [1 .. int k0 - 1] @ int k0 # [int k0 + 1 .. 17]"
    by (rule upto_split3)
  moreover have "\<forall>k \<in> set [1 .. int k0 - 1]. digits_at m e (int L) k = None"
    using none by simp
  ultimately have "shortest_from m e (int L) [1 .. 17] = shortest_from m e (int L) (int k0 # [int k0 + 1 .. 17])"
    using shortest_from_skip by simp
  also have "\<dots> = (s, int L - int k0)" using some by simp
  finally show ?thesis
    using e0 nm [symmetric] p Lk by (simp add: shortest_digits_def Let_def)
qed

lemma Number_toString_Finite:
  assumes n: "0 < n" "n < 2 ^ 53" and st: "strip_twos n 0 = Finite False m e"
  shows "Number_toString (Finite neg m e) = (if neg then js ''-'' @ digits_of n else digits_of n)"
proof -
  obtain s z where dec: "n = s * 10 ^ z" "0 < s" "s mod 10 \<noteq> 0"
    using decompose_10 [OF n(1)] by blast
  have sd: "shortest_digits m e = (s, int z)"
    using n st dec by (rule shortest_digits_int)
  from strip_twos_value [OF st] n(1) have m: "m \<noteq> 0" by auto
  have dn: "digits_of n = digits_of s @ replicate z 0x30"
    unfolding dec(1) using dec(2) by (rule digits_of_times_pow)
  have "last (digits_of s) \<noteq> 0x30" using dec by (simp add: last_digits_of)
  then have dz: "drop_zeros (digits_of s) = digits_of s"
    by (intro drop_zeros_id) simp_all
  have "n < 10 ^ 16" using n(2) by simp
  then have "length (digits_of n) \<le> 16"
    by (intro length_digits_of) simp_all
  then have "length (digits_of s) + z \<le> 16" using dn by simp
  then have "format_digits (digits_of s) (int (length (digits_of s)) + int z) = digits_of n"
    using dn by (simp add: format_digits_def)
  with m sd dz show ?thesis by simp
qed

lemma Number_toString_decimal:
  assumes "\<bar>n\<bar> < 2 ^ 53"
  shows "Number_toString (js_of_int n) = decimal n"
proof (cases "n = 0")
  case True
  then show ?thesis
    by (simp add: js_of_int_def round_to_double_def decimal_def digits_of_0 js_simps)
next
  case False
  then have pos: "0 < \<bar>n\<bar>" by simp
  obtain m e where st: "strip_twos \<bar>n\<bar> 0 = Finite False m e"
    using strip_twos_Finite [of "\<bar>n\<bar>" 0] by blast
  then have "js_of_int n = Finite (n < 0) m e"
    using pos assms by (simp add: js_of_int_exact finite_num_def)
  moreover have "Number_toString (Finite (n < 0) m e) =
      (if n < 0 then js ''-'' @ digits_of \<bar>n\<bar> else digits_of \<bar>n\<bar>)"
    using pos assms st by (rule Number_toString_Finite)
  ultimately show ?thesis
    by (simp add: decimal_def)
qed

subsection \<open>The handler after the prompt\<close>

lemma process_response_status:
  "process_response r = Inr res \<Longrightarrow> status res = 200 \<or> status res = 500"
  by (auto simp: process_response_def respond_to_text_def ResponseTextExtractor_def
        StructuredJSONRecovery_def GroupValidator_def
        split: sum.splits jsval.splits option.splits if_splits)

lemma invoke_loop_first:
  assumes "ai 0 req = Resolves r"
  shows "RetryingInvoker ai req = (Returned r, [Call req])"
  using assms
  by (simp add: RetryingInvoker_def invoke_loop.simps maxAttempts_def calls_in_def)

lemma invoke_loop_third:
  assumes "ai 0 req = Rejects e0" and "ai 1 req = Rejects e1" and "ai 2 req = Resolves r"
  shows "RetryingInvoker ai req =
           (Returned r, [Call req, Wait 1000, Call req, Wait 2000, Call req])"
proof -
  have "ai (Suc 0) req = Rejects e1" and "ai (Suc (Suc 0)) req = Resolves r"
    using assms by (simp_all add: numeral_2_eq_2)
  with assms(1) show ?thesis
    by (simp add: RetryingInvoker_def invoke_loop.simps maxAttempts_def calls_in_def)
qed

lemma invoke_loop_second:
  assumes "ai 0 req = Rejects e0" and "ai 1 req = Resolves r"
  shows "RetryingInvoker ai req = (Returned r, [Call req, Wait 1000, Call req])"
proof -
  have "ai (Suc 0) req = Resolves r"
    using assms by simp
  with assms(1) show ?thesis
    by (simp add: RetryingInvoker_def invoke_loop.simps maxAttempts_def calls_in_def)
qed

lemma invoke_loop_exhausted:
  assumes "ai 0 req = Rejects e0" and "ai 1 req = Rejects e1" and "ai 2 req = Rejects e2"
  shows "RetryingInvoker ai req =
           (Thrown e2, [Call req, Wait 1000, Call req, Wait 2000, Call req])"
proof -
  have "ai (Suc 0) req = Rejects e1" and "ai (Suc (Suc 0)) req = Rejects e2"
    using assms by (simp_all add: numeral_2_eq_2)
  with assms(1) show ?thesis
    by (simp add: RetryingInvoker_def invoke_loop.simps maxAttempts_def calls_in_def)
qed

lemma group_tabs_after_prompt:
  assumes "InputValidator req_body = Inr (Inr tabs)" and "PromptBuilder tabs = Inr req"
  shows "group_tabs tmsg ai req_body =
           (case RetryingInvoker ai req of
              (Returned response, log) \<Rightarrow> (Some (catch_all tmsg (process_response response)), log)
            | (Thrown e, log) \<Rightarrow> (Some (catch_all tmsg (Inl e)), log)
            | (NeverSettles, log) \<Rightarrow> (None, log))"
proof -
  from assms(2) obtain vs where "tabs = Arr vs"
    by (cases tabs) (auto simp: PromptBuilder_def tabs_map_def)
  then obtain received where "received_log tabs = Inr received"
    by (simp add: received_log_def)
  with assms show ?thesis
    by (simp add: group_tabs_def try_block_def split: prod.splits invoked.splits)
qed

subsection \<open>The termination tests of the parser always hold\<close>

lemma parse_number_shorter:
  assumes "parse_number s = Some (x, rest)"
  shows "length rest < length s"
proof -
  obtain neg s1 where n: "(case s of [] \<Rightarrow> (False, s) | c # r \<Rightarrow> if c = 0x2D then (True, r) else (False, s)) = (neg, s1)"
    by (cases "(case s of [] \<Rightarrow> (False, s) | c # r \<Rightarrow> if c = 0x2D then (True, r) else (False, s))")
  then have l1: "length s1 \<le> length s"
    by (auto split: list.splits if_splits)
  from assms n obtain d r where s1: "s1 = d # r" and d: "is_digit d"
    by (cases s1) (auto simp: parse_number_def split: if_splits)
  obtain ip s2 where ip: "(if d = 0x30 then ([d], r) else (d # takeWhile is_digit r, dropWhile is_digit r)) = (ip, s2)"
    by (cases "(if d = 0x30 then ([d], r) else (d # takeWhile is_digit r, dropWhile is_digit r))")
  then have l2: "length s2 < length s1"
    unfolding s1 using length_dropWhile_le [of is_digit r] by (auto split: if_splits simp: less_Suc_eq_le)
  from assms n s1 d ip obtain fp s3 ex where f: "parse_frac s2 = Some (fp, s3)"
      and e: "parse_exp s3 = Some (ex, rest)"
    by (auto simp: parse_number_def split: option.splits)
  from f have l3: "length s3 \<le> length s2"
    using length_dropWhile_le [of is_digit "tl s2"]
    by (auto simp: parse_frac_def split: list.splits if_splits)
  have l4: "length rest \<le> length s3"
  proof (cases s3)
    case Nil
    with e show ?thesis by (simp add: parse_exp_def)
  next
    case (Cons c r')
    obtain sg r1 where sg: "parse_sign r' = (sg, r1)" by (cases "parse_sign r'")
    then have "length r1 \<le> length r'"
      by (auto simp: parse_sign_def split: list.splits if_splits)
    moreover have "length (dropWhile is_digit r1) \<le> length r1"
      by (rule length_dropWhile_le)
    ultimately show ?thesis
      using e Cons sg by (auto simp: parse_exp_def split: if_splits)
  qed
  from l1 l2 l3 l4 show ?thesis by linarith
qed

lemma skip_ws_Cons_shorter: "skip_ws y = d # r \<Longrightarrow> length r < length y"
  using length_skip_ws [of y] by simp

lemma parse_shorter:
  "(\<forall>v rest. parse_value s = Some (v, rest) \<longrightarrow> length rest < length s)"
  "(\<forall>v rest. parse_elements s1 acc1 = Some (v, rest) \<longrightarrow> length rest < length s1)"
  "(\<forall>v rest. parse_members s2 acc2 = Some (v, rest) \<longrightarrow> length rest < length s2)"
proof (induction s and s1 acc1 and s2 acc2 rule: parse_value_parse_elements_parse_members.induct)
  case (1 s)
  show ?case
  proof (intro allI impI)
    fix v rest assume pv: "parse_value s = Some (v, rest)"
    then obtain c cs where s: "s = c # cs"
      by (cases s) (simp_all add: parse_value.simps)
    consider (obj) "c = 0x7B" | (arr) "c \<noteq> 0x7B" "c = 0x5B" | (str) "c = 0x22"
      | (other) "c \<noteq> 0x7B" "c \<noteq> 0x5B" "c \<noteq> 0x22" by blast
    then show "length rest < length s"
    proof cases
      case obj
      with pv s obtain d r where sk: "skip_ws cs = d # r"
        and res: "(if d = 0x7D then Some (Obj [], r) else parse_members (d # r) []) = Some (v, rest)"
        by (subst (asm) parse_value.simps) (auto split: list.splits)
      have l: "length r < length cs" using sk by (rule skip_ws_Cons_shorter)
      show ?thesis
      proof (cases "d = 0x7D")
        case True
        with res l s show ?thesis by simp
      next
        case False
        with res have "parse_members (d # r) [] = Some (v, rest)" by simp
        with "1.IH"(1) [OF s obj sk False] have "length rest < length (d # r)" by blast
        with l s show ?thesis by simp
      qed
    next
      case arr
      with pv s obtain d r where sk: "skip_ws cs = d # r"
        and res: "(if d = 0x5D then Some (Arr [], r) else parse_elements (d # r) []) = Some (v, rest)"
        by (subst (asm) parse_value.simps) (auto split: list.splits)
      have l: "length r < length cs" using sk by (rule skip_ws_Cons_shorter)
      show ?thesis
      proof (cases "d = 0x5D")
        case True
        with res l s show ?thesis by simp
      next
        case False
        with res have "parse_elements (d # r) [] = Some (v, rest)" by simp
        with "1.IH"(2) [OF s arr sk False] have "length rest < length (d # r)" by blast
        with l s show ?thesis by simp
      qed
    next
      case str
      with pv s obtain k where "parse_chars cs = Some (k, rest)"
        by (subst (asm) parse_value.simps) (auto split: option.splits)
      then show ?thesis using s parse_chars_shorter [of cs k rest] by simp
    next
      case other
      with pv s have
        "(if prefix (js ''true'') s then Some (Bool True, drop 4 s)
          else if prefix (js ''false'') s then Some (Bool False, drop 5 s)
          else if prefix (js ''null'') s then Some (Null, drop 4 s)
          else (case parse_number s of None \<Rightarrow> None | Some (x, r) \<Rightarrow> Some (Num x, r)))
         = Some (v, rest)"
        by (subst (asm) parse_value.simps) simp
      then consider "rest = drop 4 s" | "rest = drop 5 s"
        | x where "parse_number s = Some (x, rest)"
        by (auto split: if_splits option.splits)
      then show ?thesis
      proof cases
        case 1
        then show ?thesis using s by simp
      next
        case 2
        then show ?thesis using s by simp
      next
        case 3
        then show ?thesis by (rule parse_number_shorter)
      qed
    qed
  qed
next
  case (2 s acc)
  show ?case
  proof (intro allI impI)
    fix v rest assume pe: "parse_elements s acc = Some (v, rest)"
    then obtain x y d r' where pv: "parse_value s = Some (x, y)" and sk: "skip_ws y = d # r'"
      and res: "(if d = 0x2C then (if length r' < length s then parse_elements (skip_ws r') (acc @ [x]) else None)
                 else if d = 0x5D then Some (Arr (acc @ [x]), r') else None) = Some (v, rest)"
      by (subst (asm) parse_elements.simps) (auto split: option.splits list.splits)
    from "2.IH"(1) pv have l0: "length y < length s" by blast
    have l1: "length r' < length y" using sk by (rule skip_ws_Cons_shorter)
    show "length rest < length s"
    proof (cases "d = 0x2C")
      case True
      with res have len: "length r' < length s"
        and rec: "parse_elements (skip_ws r') (acc @ [x]) = Some (v, rest)"
        by (auto split: if_splits)
      from "2.IH"(2) [OF pv refl sk True len] rec
      have "length rest < length (skip_ws r')" by blast
      with length_skip_ws [of r'] len show ?thesis by linarith
    next
      case False
      with res have "rest = r'" by (auto split: if_splits)
      with l0 l1 show ?thesis by simp
    qed
  qed
next
  case (3 s acc)
  show ?case
  proof (intro allI impI)
    fix v rest assume pm: "parse_members s acc = Some (v, rest)"
    then obtain q cs k r col r1 x y d r3 where s: "s = q # cs" and q: "q = 0x22"
      and pc: "parse_chars cs = Some (k, r)" and sk1: "skip_ws r = col # r1" and col: "col = 0x3A"
      and pv: "parse_value (skip_ws r1) = Some (x, y)" and sk2: "skip_ws y = d # r3"
      and res: "(if d = 0x2C then (if length r3 < length s then parse_members (skip_ws r3) (AList.update k x acc) else None)
                 else if d = 0x7D then Some (Obj (AList.update k x acc), r3) else None) = Some (v, rest)"
      by (subst (asm) parse_members.simps) (auto split: option.splits list.splits if_splits)
    have nq: "\<not> q \<noteq> 0x22" using q by simp
    have nc: "\<not> col \<noteq> 0x3A" using col by simp
    from "3.IH"(1) [OF s nq pc refl sk1 nc] pv have "length y < length (skip_ws r1)" by blast
    moreover have "length r < length cs" using pc by (rule parse_chars_shorter)
    moreover have "length r1 < length r" using sk1 by (rule skip_ws_Cons_shorter)
    moreover have "length r3 < length y" using sk2 by (rule skip_ws_Cons_shorter)
    ultimately have l: "length r3 < length s"
      using length_skip_ws [of r1] s by simp
    show "length rest < length s"
    proof (cases "d = 0x2C")
      case True
      with res l have rec: "parse_members (skip_ws r3) (AList.update k x acc) = Some (v, rest)"
        by (auto split: if_splits)
      from "3.IH"(2) [OF s nq pc refl sk1 nc pv refl sk2 True l] rec
      have "length rest < length (skip_ws r3)" by blast
      with length_skip_ws [of r3] l show ?thesis by linarith
    next
      case False
      with res have "rest = r3" by (auto split: if_splits)
      with l show ?thesis by simp
    qed
  qed
qed

lemma parse_value_shorter: "parse_value s = Some (v, rest) \<Longrightarrow> length rest < length s"
  using parse_shorter(1) by blast

text \<open>The equations of the parser without the tests.\<close>

lemma parse_elements_unfold:
  "parse_elements s acc =
     (case parse_value s of
        None \<Rightarrow> None
      | Some (v, r) \<Rightarrow>
          (case skip_ws r of
             [] \<Rightarrow> None
           | d # r' \<Rightarrow>
               if d = 0x2C then parse_elements (skip_ws r') (acc @ [v])
               else if d = 0x5D then Some (Arr (acc @ [v]), r')
               else None))"
proof -
  have "length r' < length s" if "parse_value s = Some (v, r)" "skip_ws r = d # r'" for v r d r'
    using parse_value_shorter [OF that(1)] skip_ws_Cons_shorter [OF that(2)] by simp
  then show ?thesis
    by (subst parse_elements.simps) (auto split: option.splits list.splits)
qed

lemma parse_members_unfold:
  "parse_members s acc =
     (case s of
        [] \<Rightarrow> None
      | q # cs \<Rightarrow>
          if q \<noteq> 0x22 then None
          else
            (case parse_chars cs of
               None \<Rightarrow> None
             | Some (k, r) \<Rightarrow>
                 (case skip_ws r of
                    [] \<Rightarrow> None
                  | col # r1 \<Rightarrow>
                      if col \<noteq> 0x3A then None
                      else
                        (case parse_value (skip_ws r1) of
                           None \<Rightarrow> None
                         | Some (v, r2) \<Rightarrow>
                             (case skip_ws r2 of
                                [] \<Rightarrow> None
                              | d # r3 \<Rightarrow>
                                  if d = 0x2C
                                  then parse_members (skip_ws r3) (AList.update k v acc)
                                  else if d = 0x7D then Some (Obj (AList.update k v acc), r3)
                                  else None)))))"
proof -
  have "length r3 < length s"
    if "s = q # cs" "parse_chars cs = Some (k, r)" "skip_ws r = col # r1"
      "parse_value (skip_ws r1) = Some (v, r2)" "skip_ws r2 = d # r3" for q cs k r col r1 v r2 d r3
    using parse_chars_shorter [OF that(2)] skip_ws_Cons_shorter [OF that(3)]
      parse_value_shorter [OF that(4)] skip_ws_Cons_shorter [OF that(5)]
      length_skip_ws [of r1] that(1)
    by simp
  then show ?thesis
    by (subst parse_members.simps) (auto split: option.splits list.splits)
qed

subsection \<open>Input validation\<close>

text \<open>
  Claim C7. A request body, itself neither \<^verbatim>\<open>undefined\<close> nor \<^verbatim>\<open>null\<close>, whose
  \<^verbatim>\<open>tabs\<close> field is absent or is the empty list is
  answered with status 400 and the body \<^verbatim>\<open>{"error": "No tabs provided"}\<close>, and the
  upstream is not called. A request with a non-empty tab list passes input validation,
  and whatever the handler then responds does not have status 400.
\<close>

theorem input_validation:
  assumes "\<not> nullish req_body"
  shows "(get_prop req_body (js ''tabs'') = Undefined \<or> get_prop req_body (js ''tabs'') = Arr []
            \<longrightarrow> group_tabs tmsg ai req_body =
                  (Some (Response 400 (Obj [(js ''error'', Str (js ''No tabs provided''))])), []))
       \<and> (get_prop req_body (js ''tabs'') = Arr (t # ts)
            \<longrightarrow> InputValidator req_body = Inr (Inr (Arr (t # ts)))
              \<and> (\<forall>res log. group_tabs tmsg ai req_body = (Some res, log) \<longrightarrow> status res \<noteq> 400))"
proof (intro conjI impI)
  assume "get_prop req_body (js ''tabs'') = Undefined \<or> get_prop req_body (js ''tabs'') = Arr []"
  with assms show "group_tabs tmsg ai req_body =
      (Some (Response 400 (Obj [(js ''error'', Str (js ''No tabs provided''))])), [])"
    by (auto simp: group_tabs_def try_block_def InputValidator_def catch_all_def)
next
  assume ne: "get_prop req_body (js ''tabs'') = Arr (t # ts)"
  from assms ne show iv: "InputValidator req_body = Inr (Inr (Arr (t # ts)))"
    by (simp add: InputValidator_def)
  show "\<forall>res log. group_tabs tmsg ai req_body = (Some res, log) \<longrightarrow> status res \<noteq> 400"
  proof (intro allI impI)
    fix res log
    assume g: "group_tabs tmsg ai req_body = (Some res, log)"
    then obtain r where r: "try_block ai req_body = (Some r, log)" and res: "res = catch_all tmsg r"
      by (auto simp: group_tabs_def split: prod.splits option.splits)
    show "status res \<noteq> 400"
    proof (cases r)
      case (Inl e)
      with res show ?thesis by (simp add: catch_all_def)
    next
      case (Inr res')
      with r iv obtain response where "process_response response = Inr res'"
        by (auto simp: try_block_def split: sum.splits prod.splits invoked.splits)
      then have "status res' = 200 \<or> status res' = 500"
        by (rule process_response_status)
      with Inr res show ?thesis by (auto simp: catch_all_def)
    qed
  qed
qed


theorem input_validation_witness:
  "group_tabs (\<lambda>t. []) (\<lambda>n r. Pending) (Obj []) =
     (Some (Response 400 (Obj [(js ''error'', Str (js ''No tabs provided''))])), [])
   \<and> InputValidator (Obj [(js ''tabs'', Arr [Null])]) = Inr (Inr (Arr [Null]))"
  using input_validation [where req_body = "Obj []" and tmsg = "\<lambda>t. []" and ai = "\<lambda>n r. Pending"]
    input_validation [where req_body = "Obj [(js ''tabs'', Arr [Null])]" and t = Null and ts = "[]"]
  by simp

subsection \<open>The retry loop\<close>

text \<open>
  Claim C3. When the upstream fails on attempts 1 and 2 and succeeds on attempt 3, the
  handler makes exactly 3 upstream calls, waits 1000 ms after the first failure and
  2000 ms after the second, and goes on with the response of the third attempt. After
  the first successful attempt, be it attempt 1 or 2, no further attempt is made.
\<close>

theorem retry_until_success:
  assumes "InputValidator req_body = Inr (Inr tabs)" and "PromptBuilder tabs = Inr req"
  shows "(ai 0 req = Rejects ea \<and> ai 1 req = Rejects eb \<and> ai 2 req = Resolves r
            \<longrightarrow> RetryingInvoker ai req =
                  (Returned r, [Call req, Wait 1000, Call req, Wait 2000, Call req])
              \<and> group_tabs tmsg ai req_body =
                  (Some (catch_all tmsg (process_response r)),
                   [Call req, Wait 1000, Call req, Wait 2000, Call req]))
       \<and> (ai 0 req = Rejects ea \<and> ai 1 req = Resolves r
            \<longrightarrow> RetryingInvoker ai req = (Returned r, [Call req, Wait 1000, Call req])
              \<and> group_tabs tmsg ai req_body =
                  (Some (catch_all tmsg (process_response r)), [Call req, Wait 1000, Call req]))
       \<and> (ai 0 req = Resolves r
            \<longrightarrow> RetryingInvoker ai req = (Returned r, [Call req])
              \<and> group_tabs tmsg ai req_body =
                  (Some (catch_all tmsg (process_response r)), [Call req]))"
  using invoke_loop_third [of ai req ea eb r] invoke_loop_second [of ai req ea r]
    invoke_loop_first [of ai req r] group_tabs_after_prompt [OF assms, of tmsg ai]
  by auto

theorem retry_until_success_witness:
  "group_tabs (\<lambda>t. [])
     (\<lambda>n r. if n < 2 then Rejects (ApiError (js ''down'')) else Resolves (Str (js ''{}'')))
     (Obj [(js ''tabs'', Arr [Obj [(js ''id'', Num (js_of_nat 1))]])]) =
   (Some (Response 200 (Obj [])),
    [Call \<lparr>model = js ''gemini-2.0-flash-001'',
           contents = prompt_head @ js ''ID:1 | undefined (undefined)''\<rparr>,
     Wait 1000,
     Call \<lparr>model = js ''gemini-2.0-flash-001'',
           contents = prompt_head @ js ''ID:1 | undefined (undefined)''\<rparr>,
     Wait 2000,
     Call \<lparr>model = js ''gemini-2.0-flash-001'',
           contents = prompt_head @ js ''ID:1 | undefined (undefined)''\<rparr>])"
proof -
  have a: "InputValidator (Obj [(js ''tabs'', Arr [Obj [(js ''id'', Num (js_of_nat 1))]])]) =
             Inr (Inr (Arr [Obj [(js ''id'', Num (js_of_nat 1))]]))"
    by code_simp
  have "tab_line (Obj [(js ''id'', Num (js_of_nat 1))]) = Inr (js ''ID:1 | undefined (undefined)'')"
    by code_simp
  then have b: "PromptBuilder (Arr [Obj [(js ''id'', Num (js_of_nat 1))]]) =
             Inr \<lparr>model = js ''gemini-2.0-flash-001'',
                  contents = prompt_head @ js ''ID:1 | undefined (undefined)''\<rparr>"
    by (simp add: PromptBuilder_def tabs_map_def)
  have c: "catch_all (\<lambda>t. []) (process_response (Str (js ''{}''))) = Response 200 (Obj [])"
    by code_simp
  show ?thesis
    using retry_until_success [OF a b, where r = "Str (js ''{}'')" and tmsg = "\<lambda>t. []"
        and ea = "ApiError (js ''down'')" and eb = "ApiError (js ''down'')"
        and ai = "\<lambda>n r. if n < 2 then Rejects (ApiError (js ''down'')) else Resolves (Str (js ''{}''))"] c
    by simp
qed

text \<open>
  Claim C4. When the upstream fails on every attempt, the handler makes exactly 3
  upstream calls, never a fourth, and rethrows the error of the third attempt; the
  response is a 500 whose \<^verbatim>\<open>details\<close> field is the message of that last error.
\<close>

theorem retry_exhausted:
  assumes "InputValidator req_body = Inr (Inr tabs)" and "PromptBuilder tabs = Inr req"
    and "\<forall>n. ai n req = Rejects (err n)"
  shows "RetryingInvoker ai req =
           (Thrown (err 2), [Call req, Wait 1000, Call req, Wait 2000, Call req])
       \<and> calls_in (snd (group_tabs tmsg ai req_body)) = 3
       \<and> group_tabs tmsg ai req_body =
           (Some (Response 500
              (Obj [(js ''error'', Str (js ''Something went wrong'')),
                    (js ''details'', Str (message tmsg (err 2)))])),
            [Call req, Wait 1000, Call req, Wait 2000, Call req])"
  using invoke_loop_exhausted [of ai req "err 0" "err 1" "err 2"]
    group_tabs_after_prompt [OF assms(1,2), of tmsg ai] assms(3)
  by (simp add: catch_all_def calls_in_def)

theorem retry_exhausted_witness:
  "group_tabs (\<lambda>t. []) (\<lambda>n r. Rejects (ApiError (digits_of (int n))))
     (Obj [(js ''tabs'', Arr [Obj [(js ''id'', Num (js_of_nat 1))]])]) =
   (Some (Response 500
      (Obj [(js ''error'', Str (js ''Something went wrong'')),
            (js ''details'', Str (js ''2''))])),
    [Call \<lparr>model = js ''gemini-2.0-flash-001'',
           contents = prompt_head @ js ''ID:1 | undefined (undefined)''\<rparr>,
     Wait 1000,
     Call \<lparr>model = js ''gemini-2.0-flash-001'',
           contents = prompt_head @ js ''ID:1 | undefined (undefined)''\<rparr>,
     Wait 2000,
     Call \<lparr>model = js ''gemini-2.0-flash-001'',
           contents = prompt_head @ js ''ID:1 | undefined (undefined)''\<rparr>])"
proof -
  have a: "InputValidator (Obj [(js ''tabs'', Arr [Obj [(js ''id'', Num (js_of_nat 1))]])]) =
             Inr (Inr (Arr [Obj [(js ''id'', Num (js_of_nat 1))]]))"
    by code_simp
  have "tab_line (Obj [(js ''id'', Num (js_of_nat 1))]) = Inr (js ''ID:1 | undefined (undefined)'')"
    by code_simp
  then have b: "PromptBuilder (Arr [Obj [(js ''id'', Num (js_of_nat 1))]]) =
             Inr \<lparr>model = js ''gemini-2.0-flash-001'',
                  contents = prompt_head @ js ''ID:1 | undefined (undefined)''\<rparr>"
    by (simp add: PromptBuilder_def tabs_map_def)
  have c: "digits_of 2 = js ''2''"
    by code_simp
  show ?thesis
    using retry_exhausted [OF a b, where err = "\<lambda>n. ApiError (digits_of (int n))" and tmsg = "\<lambda>t. []"
        and ai = "\<lambda>n r. Rejects (ApiError (digits_of (int n)))"] c
    by simp
qed

subsection \<open>Text extraction\<close>

lemma get_prop_nullish: "nullish v \<Longrightarrow> get_prop v k = Undefined"
  by (cases v) simp_all

lemma nested_text_canonical:
  assumes "get_prop response (js ''candidates'') = Arr (c # cs)"
    and "get_prop c (js ''content'') = ct"
    and "get_prop ct (js ''parts'') = Arr (p # ps)"
    and "get_prop p (js ''text'') = Str u"
  shows "nested_text response = Str u"
proof -
  have p: "\<not> nullish p" using assms(4) get_prop_nullish [of p] by auto
  have ct: "\<not> nullish ct" using assms(3) get_prop_nullish [of ct] by auto
  have c: "\<not> nullish c" using assms(2) ct get_prop_nullish [of c] by auto
  show ?thesis
    using assms p ct c by (simp add: nested_text_def opt_prop_def opt_index_def)
qed

lemma Object_keys_not_nullish: "\<not> nullish v \<Longrightarrow> \<exists>ks. Object_keys v = Inr ks"
  by (cases v) simp_all

text \<open>
  Claim C5. The text is taken from the first of three shapes that applies: a non-empty
  direct \<^verbatim>\<open>text\<close> field; else the nested \<^verbatim>\<open>candidates[0].content.parts[0].text\<close>;
  else the response itself when it is a string. A response with a non-empty direct
  \<^verbatim>\<open>text\<close> field gives that text whatever else it holds, a nested candidate
  structure included, and the handler goes on with it.
\<close>

theorem extractor_precedence:
  "(get_prop response (js ''text'') = Str t \<and> t \<noteq> []
      \<longrightarrow> ResponseTextExtractor response = Inr (Inr (Str t))
        \<and> process_response response = Inr (respond_to_text t))
 \<and> (\<not> truthy (get_prop response (js ''text''))
      \<and> get_prop response (js ''candidates'') = Arr (c # cs)
      \<and> get_prop c (js ''content'') = ct
      \<and> get_prop ct (js ''parts'') = Arr (p # ps)
      \<and> get_prop p (js ''text'') = Str u \<and> u \<noteq> []
      \<longrightarrow> ResponseTextExtractor response = Inr (Inr (Str u))
        \<and> process_response response = Inr (respond_to_text u))
 \<and> (response = Str s
      \<longrightarrow> ResponseTextExtractor response = Inr (Inr (Str s))
        \<and> process_response response = Inr (respond_to_text s))"
proof (intro conjI impI)
  assume a: "get_prop response (js ''text'') = Str t \<and> t \<noteq> []"
  then show e: "ResponseTextExtractor response = Inr (Inr (Str t))"
    by (simp add: ResponseTextExtractor_def)
  from a have "\<not> nullish response" using get_prop_nullish [of response] by auto
  then obtain ks where "Object_keys response = Inr ks"
    using Object_keys_not_nullish by blast
  with e show "process_response response = Inr (respond_to_text t)"
    by (simp add: process_response_def)
next
  assume a: "\<not> truthy (get_prop response (js ''text''))
      \<and> get_prop response (js ''candidates'') = Arr (c # cs)
      \<and> get_prop c (js ''content'') = ct
      \<and> get_prop ct (js ''parts'') = Arr (p # ps)
      \<and> get_prop p (js ''text'') = Str u \<and> u \<noteq> []"
  then have n: "nested_text response = Str u"
    using nested_text_canonical by blast
  with a show e: "ResponseTextExtractor response = Inr (Inr (Str u))"
    by (simp add: ResponseTextExtractor_def)
  from a have "\<not> nullish response" using get_prop_nullish [of response] by auto
  then obtain ks where "Object_keys response = Inr ks"
    using Object_keys_not_nullish by blast
  with e show "process_response response = Inr (respond_to_text u)"
    by (simp add: process_response_def)
next
  assume a: "response = Str s"
  then show e: "ResponseTextExtractor response = Inr (Inr (Str s))"
    by (simp add: ResponseTextExtractor_def nested_text_def opt_prop_def opt_index_def)
  with a show "process_response response = Inr (respond_to_text s)"
    by (simp add: process_response_def)
qed

theorem extractor_precedence_witness:
  "ResponseTextExtractor
     (Obj [(js ''text'', Str (js ''direct'')),
           (js ''candidates'',
              Arr [Obj [(js ''content'',
                Obj [(js ''parts'', Arr [Obj [(js ''text'', Str (js ''nested''))]])])]])])
   = Inr (Inr (Str (js ''direct'')))
 \<and> ResponseTextExtractor
     (Obj [(js ''text'', Str []),
           (js ''candidates'',
              Arr [Obj [(js ''content'',
                Obj [(js ''parts'', Arr [Obj [(js ''text'', Str (js ''nested''))]])])]])])
   = Inr (Inr (Str (js ''nested'')))
 \<and> ResponseTextExtractor (Str (js ''bare'')) = Inr (Inr (Str (js ''bare'')))"
  using extractor_precedence [where response = "Obj [(js ''text'', Str (js ''direct'')),
           (js ''candidates'',
              Arr [Obj [(js ''content'',
                Obj [(js ''parts'', Arr [Obj [(js ''text'', Str (js ''nested''))]])])]])]"
      and t = "js ''direct''"]
    extractor_precedence [where response = "Obj [(js ''text'', Str []),
           (js ''candidates'',
              Arr [Obj [(js ''content'',
                Obj [(js ''parts'', Arr [Obj [(js ''text'', Str (js ''nested''))]])])]])]"
      and c = "Obj [(js ''content'',
                Obj [(js ''parts'', Arr [Obj [(js ''text'', Str (js ''nested''))]])])]"
      and cs = "[]" and ct = "Obj [(js ''parts'', Arr [Obj [(js ''text'', Str (js ''nested''))]])]"
      and p = "Obj [(js ''text'', Str (js ''nested''))]" and ps = "[]" and u = "js ''nested''"]
    extractor_precedence [where response = "Str (js ''bare'')" and s = "js ''bare''"]
  by (simp add: js_simps)

lemma js_eq_Nil [simp]: "js s = [] \<longleftrightarrow> s = []"
  by (simp add: js_def)

subsection \<open>Tabs that are not an array\<close>

lemma length_js: "length (js s) = length s"
  by (simp add: js_def)

lemma js_Nil_iff: "js s = [] \<longleftrightarrow> s = []"
  by (simp add: js_def)

lemma sequence_exn_Inl: "sequence_exn rs = Inl e \<Longrightarrow> Inl e \<in> set rs"
  by (induction rs rule: sequence_exn.induct) (auto split: sum.splits)

lemma ToString_throws: "ToString v = Inl e \<Longrightarrow> e = TypeError NoPrimitiveValue"
proof (induction v arbitrary: e rule: ToString.induct)
  case (6 vs)
  from "6.prems" have "sequence_exn (map (\<lambda>v. if nullish v then Inr [] else ToString v) vs) = Inl e"
    by (auto split: sum.splits)
  then have "Inl e \<in> set (map (\<lambda>v. if nullish v then Inr [] else ToString v) vs)"
    by (rule sequence_exn_Inl)
  then obtain v where "v \<in> set vs" "\<not> nullish v" "ToString v = Inl e"
    by (auto split: if_splits)
  then show ?case by (rule "6.IH")
next
  case (7 kvs)
  then show ?case by (auto split: if_splits)
qed simp_all

lemma tabs_map_not_array:
  "\<forall>vs. tabs \<noteq> Arr vs \<Longrightarrow> tabs_map tabs f = Inl (TypeError (NotAFunction (js ''tabs.map'')))"
  by (cases tabs) (simp_all add: tabs_map_def)

text \<open>
  Claim C10, amended. Input validation tests only that \<^verbatim>\<open>tabs\<close> is truthy and that its
  \<^verbatim>\<open>length\<close> property is not \<open>0\<close>; it does not test that \<^verbatim>\<open>tabs\<close> is an array. A
  truthy value that is not an array and whose \<^verbatim>\<open>length\<close> property is not \<open>0\<close> passes
  validation. Then the template literal of line 44 throws when \<^verbatim>\<open>tabs.length\<close> has no
  primitive value, and otherwise \<^verbatim>\<open>tabs.map\<close> throws: either way no upstream call is
  made, and the response is the 500 \<^verbatim>\<open>Something went wrong\<close> of the catch-all, with the
  message of that error as its details.
\<close>

theorem non_array_tabs:
  assumes "\<not> nullish req_body" and "get_prop req_body (js ''tabs'') = tabs"
    and "truthy tabs" and "\<forall>vs. tabs \<noteq> Arr vs"
    and "\<not> is_zero (get_prop tabs (js ''length''))"
  shows "InputValidator req_body = Inr (Inr tabs)
       \<and> group_tabs tmsg ai req_body =
           (Some (Response 500
              (Obj [(js ''error'', Str (js ''Something went wrong'')),
                    (js ''details'',
                     Str (tmsg (case received_log tabs of
                                  Inl e \<Rightarrow> NoPrimitiveValue
                                | Inr received \<Rightarrow> NotAFunction (js ''tabs.map''))))])), [])"
proof -
  have iv: "InputValidator req_body = Inr (Inr tabs)"
    using assms by (simp add: InputValidator_def)
  have pb: "PromptBuilder tabs = Inl (TypeError (NotAFunction (js ''tabs.map'')))"
    using assms(4) by (simp add: PromptBuilder_def tabs_map_not_array)
  show ?thesis
  proof (cases "received_log tabs")
    case (Inl e)
    then have "e = TypeError NoPrimitiveValue"
      unfolding received_log_def by (rule ToString_throws)
    with Inl iv show ?thesis
      by (simp add: group_tabs_def try_block_def catch_all_def)
  next
    case (Inr received)
    with iv pb show ?thesis
      by (simp add: group_tabs_def try_block_def catch_all_def)
  qed
qed

theorem non_array_tabs_witness:
  "group_tabs (\<lambda>t. case t of NoPrimitiveValue \<Rightarrow> js ''Cannot convert object to primitive value''
                             | _ \<Rightarrow> js ''tabs.map is not a function'')
     (\<lambda>n r. Pending) (Obj [(js ''tabs'', Str (js ''abc''))]) =
   (Some (Response 500
      (Obj [(js ''error'', Str (js ''Something went wrong'')),
            (js ''details'', Str (js ''tabs.map is not a function''))])), [])
 \<and> group_tabs (\<lambda>t. case t of NoPrimitiveValue \<Rightarrow> js ''Cannot convert object to primitive value''
                             | _ \<Rightarrow> js ''tabs.map is not a function'')
     (\<lambda>n r. Pending)
     (Obj [(js ''tabs'', Obj [(js ''length'', Obj [(js ''toString'', Num (js_of_nat 1))])])]) =
   (Some (Response 500
      (Obj [(js ''error'', Str (js ''Something went wrong'')),
            (js ''details'', Str (js ''Cannot convert object to primitive value''))])), [])"
  using non_array_tabs [where req_body = "Obj [(js ''tabs'', Str (js ''abc''))]"
      and tabs = "Str (js ''abc'')" and ai = "\<lambda>n r. Pending"
      and tmsg = "\<lambda>t. case t of NoPrimitiveValue \<Rightarrow> js ''Cannot convert object to primitive value''
                             | _ \<Rightarrow> js ''tabs.map is not a function''"]
    non_array_tabs [where req_body =
        "Obj [(js ''tabs'', Obj [(js ''length'', Obj [(js ''toString'', Num (js_of_nat 1))])])]"
      and tabs = "Obj [(js ''length'', Obj [(js ''toString'', Num (js_of_nat 1))])]"
      and ai = "\<lambda>n r. Pending"
      and tmsg = "\<lambda>t. case t of NoPrimitiveValue \<Rightarrow> js ''Cannot convert object to primitive value''
                             | _ \<Rightarrow> js ''tabs.map is not a function''"]
  by (simp add: received_log_def length_js js_Nil_iff)

theorem non_array_tabs_counterexample:
  "truthy (Obj [(js ''length'', Num (js_of_nat 0))])
 \<and> typeof (Obj [(js ''length'', Num (js_of_nat 0))]) = js ''object''
 \<and> group_tabs (\<lambda>t. js ''tabs.map is not a function'') (\<lambda>n r. Pending)
     (Obj [(js ''tabs'', Obj [(js ''length'', Num (js_of_nat 0))])]) =
   (Some (Response 400 (Obj [(js ''error'', Str (js ''No tabs provided''))])), [])"
  by (simp add: group_tabs_def try_block_def InputValidator_def catch_all_def)

subsection \<open>Validation of the groups\<close>

lemma GroupValidator_cases:
  "GroupValidator (Obj kvs) = Inr (Obj kvs)"
  "GroupValidator (Arr vs) = Inr (Arr vs)"
  "GroupValidator Null = Inl (Response 500
     (Obj [(js ''error'', Str (js ''Invalid response structure from AI'')), (js ''received'', Null)]))"
  "GroupValidator (Str s) = Inl (Response 500
     (Obj [(js ''error'', Str (js ''Invalid response structure from AI'')), (js ''received'', Str s)]))"
  "GroupValidator (Num x) = Inl (Response 500
     (Obj [(js ''error'', Str (js ''Invalid response structure from AI'')), (js ''received'', Num x)]))"
  "GroupValidator (Bool b) = Inl (Response 500
     (Obj [(js ''error'', Str (js ''Invalid response structure from AI'')), (js ''received'', Bool b)]))"
  by (simp_all add: GroupValidator_def)

text \<open>
  Claim C1, at the input where the code departs from it. The test of line 150 is
  \<^verbatim>\<open>typeof groups !== "object" || groups === null\<close>, and \<^verbatim>\<open>typeof\<close> of an array is
  \<^verbatim>\<open>"object"\<close>: an array passes the validation, and a reply whose text is the JSON array
  \<^verbatim>\<open>[1,2]\<close> is sent back to the caller with status 200.
\<close>

theorem group_validator_accepts_array:
  "GroupValidator (Arr vs) = Inr (Arr vs)
 \<and> process_response (Obj [(js ''text'', Str (js ''[1,2]''))]) =
     Inr (Response 200 (Arr [Num (js_of_nat 1), Num (js_of_nat 2)]))"
proof -
  have "JSON_parse (js ''[1,2]'') = Some (Arr [Num (js_of_nat 1), Num (js_of_nat 2)])"
    by code_simp
  then show ?thesis
    by (simp add: GroupValidator_def process_response_def ResponseTextExtractor_def
          respond_to_text_def StructuredJSONRecovery_def)
qed

theorem group_validator_accepts_array_witness:
  "GroupValidator (Arr [Str (js ''Work''), Null]) = Inr (Arr [Str (js ''Work''), Null])"
  using group_validator_accepts_array [of "[Str (js ''Work''), Null]"]
  by simp

subsection \<open>JSON recovery: the error payload\<close>

text \<open>
  Claim C8, amended. Whenever the recovery fails, be it that no candidate span exists
  or that the candidate span does not parse, the response is a 500 whose
  \<^verbatim>\<open>rawResponse\<close> field is exactly the first 500 code units of the extracted text: never
  more than 500, never the full text when the text is longer than 500, and the full
  text when it has at most 500 code units.
\<close>

theorem parse_error_payload:
  assumes "StructuredJSONRecovery text = Inl res"
  shows "status res = 500
       \<and> (body res = Obj [(js ''error'', Str (js ''Failed to parse AI response as JSON'')),
                          (js ''rawResponse'', Str (take 500 text))]
          \<or> body res = Obj [(js ''error'', Str (js ''No valid JSON found in AI response'')),
                            (js ''rawResponse'', Str (take 500 text))])
       \<and> length (take 500 text) \<le> 500
       \<and> (500 < length text \<longrightarrow> take 500 text \<noteq> text)
       \<and> (length text \<le> 500 \<longrightarrow> take 500 text = text)"
proof -
  have "500 < length text \<longrightarrow> take 500 text \<noteq> text"
    by (metis length_take min.absorb2 nat_less_le)
  with assms show ?thesis
    by (auto simp: StructuredJSONRecovery_def split: option.splits)
qed

theorem parse_error_payload_witness:
  "StructuredJSONRecovery (js ''no json here'') =
     Inl (Response 500
       (Obj [(js ''error'', Str (js ''No valid JSON found in AI response'')),
             (js ''rawResponse'', Str (js ''no json here''))]))
 \<and> take 500 (js ''no json here'') = js ''no json here''"
proof -
  have a: "StructuredJSONRecovery (js ''no json here'') =
     Inl (Response 500
       (Obj [(js ''error'', Str (js ''No valid JSON found in AI response'')),
             (js ''rawResponse'', Str (js ''no json here''))]))"
    by code_simp
  show ?thesis
    using parse_error_payload [OF a] a by simp
qed

theorem parse_error_payload_counterexample:
  "StructuredJSONRecovery (js ''hello'') =
     Inl (Response 500
       (Obj [(js ''error'', Str (js ''No valid JSON found in AI response'')),
             (js ''rawResponse'', Str (js ''hello''))]))"
  by code_simp

subsection \<open>JSON recovery: text without braces\<close>

lemma star_greedy_None:
  "(\<And>s'. set s' \<subseteq> set s \<Longrightarrow> k s' = None) \<Longrightarrow> star_greedy p s k = None"
proof (induction s)
  case Nil
  then show ?case by simp
next
  case (Cons c cs)
  have "star_greedy p cs k = None"
    by (rule Cons.IH, rule Cons.prems) auto
  moreover have "k (c # cs) = None"
    by (rule Cons.prems) simp
  ultimately show ?case by simp
qed

lemma no_open_brace_prefix: "0x7B \<notin> set s \<Longrightarrow> \<not> prefix (js ''{'') s"
  by (cases s) (auto simp: js_simps)

lemma star_lazy_None:
  "(\<And>s'. set s' \<subseteq> set s \<Longrightarrow> k s' = None) \<Longrightarrow> star_lazy p s k = None"
proof (induction s)
  case Nil
  then show ?case by simp
next
  case (Cons c cs)
  have "star_lazy p cs k = None"
    by (rule Cons.IH, rule Cons.prems) auto
  moreover have "k (c # cs) = None"
    by (rule Cons.prems) simp
  ultimately show ?case by simp
qed

text \<open>A pattern cannot match where its continuation fails on every part of the text.\<close>

lemma match_re_None:
  "(\<And>s' cap'. set s' \<subseteq> set s \<Longrightarrow> k (s', cap') = None) \<Longrightarrow> match_re r (s, cap) k = None"
proof (induction r arbitrary: s cap k)
  case (Lit p)
  have "set (drop (length p) s) \<subseteq> set s"
    by (rule set_drop_subset)
  with Lit show ?case by simp
next
  case (Opt r)
  then show ?case by simp
next
  case (Star p)
  then show ?case by (simp add: star_greedy_None)
next
  case (LazyStar p)
  then show ?case by (simp add: star_lazy_None)
next
  case (Seq r1 r2)
  show ?case
    unfolding match_re.simps
  proof (rule Seq.IH(1))
    fix s' cap' assume "set s' \<subseteq> set s"
    then show "match_re r2 (s', cap') k = None"
      by (intro Seq.IH(2) Seq.prems) auto
  qed
next
  case (Group r)
  show ?case
    unfolding match_re.simps
    by (rule Group.IH) (simp add: Group.prems)
qed

lemma fence_re_no_brace:
  assumes "0x7B \<notin> set s"
  shows "match_re fence_re (s, cap) k = None"
proof -
  have g: "match_re (Seq (Group (Seq (Lit (js ''{'')) r)) r') (s', cap') k = None"
    if "set s' \<subseteq> set s" for s' cap' r r'
  proof -
    from that assms have "0x7B \<notin> set s'" by auto
    then show ?thesis by (simp add: no_open_brace_prefix)
  qed
  show ?thesis
    unfolding fence_re_def
    apply (subst match_re.simps(5))
    apply (rule match_re_None)
    apply (subst match_re.simps(5))
    apply (rule match_re_None)
    apply (subst match_re.simps(5))
    apply (rule match_re_None)
    apply (rule g)
    apply blast
    done
qed

lemma String_match_fence_no_brace:
  "0x7B \<notin> set s \<Longrightarrow> String_match s fence_re = None"
  by (induction s) (simp_all add: match_here_def fence_re_no_brace)

lemma String_match_brace_no_brace:
  "0x7B \<notin> set s \<Longrightarrow> String_match s brace_re = None"
  by (induction s) (simp_all add: match_here_def brace_re_def no_open_brace_prefix)

lemma jsonMatch_no_brace: "0x7B \<notin> set s \<Longrightarrow> jsonMatch s = None"
  by (simp add: jsonMatch_def String_match_fence_no_brace String_match_brace_no_brace)


lemma parse_elements_Arr:
  "parse_elements s acc = Some (v, r) \<Longrightarrow> \<exists>vs. v = Arr vs"
proof (induction s acc arbitrary: v r
    rule: parse_value_parse_elements_parse_members.induct(2)
      [where P = "\<lambda>s. True" and R = "\<lambda>s acc. True"])
  case (2 s acc)
  from "2.prems" show ?case
    apply (subst (asm) parse_elements.simps)
    apply (auto split: option.splits list.splits if_splits dest: "2.IH")
    done
qed simp_all

lemma parse_value_Obj:
  "parse_value s = Some (Obj kvs, r) \<Longrightarrow> \<exists>cs. s = 0x7B # cs"
  apply (subst (asm) parse_value.simps)
  apply (auto split: option.splits list.splits if_splits dest: parse_elements_Arr)
  done

lemma JSON_parse_Obj:
  assumes "JSON_parse text = Some (Obj kvs)"
  shows "0x7B \<in> set text"
proof -
  from assms obtain r where "parse_value (skip_ws text) = Some (Obj kvs, r)"
    by (auto simp: JSON_parse_def split: option.splits if_splits)
  then obtain cs where "skip_ws text = 0x7B # cs"
    using parse_value_Obj by blast
  then have "0x7B \<in> set (dropWhile is_json_ws text)"
    by (simp add: skip_ws_def)
  then show ?thesis
    using set_dropWhileD by fastforce
qed

text \<open>
  Claim C6, amended. For an extracted text that contains no \<^verbatim>\<open>{\<close> and no \<^verbatim>\<open>}\<close>: when
  the text is not itself valid JSON, the recovery fails with the 500
  \<^verbatim>\<open>No valid JSON found in AI response\<close>, returns no value and does not reach the
  validation of the groups; when the text is itself valid JSON, the direct parse of
  line 119 succeeds, and its value, which is not a plain object, goes on to the
  validation of the groups.
\<close>

theorem no_braces_recovery:
  assumes "0x7B \<notin> set text" and "0x7D \<notin> set text"
  shows "(JSON_parse text = None
            \<longrightarrow> StructuredJSONRecovery text =
                  Inl (Response 500
                    (Obj [(js ''error'', Str (js ''No valid JSON found in AI response'')),
                          (js ''rawResponse'', Str (take 500 text))])))
       \<and> (\<forall>v. JSON_parse text = Some v
            \<longrightarrow> StructuredJSONRecovery text = Inr v \<and> (\<forall>kvs. v \<noteq> Obj kvs))"
  using assms(1) JSON_parse_Obj [of "text"]
  by (auto simp: StructuredJSONRecovery_def jsonMatch_no_brace)

theorem no_braces_recovery_witness:
  "StructuredJSONRecovery (js ''Sorry, I cannot group these tabs.'') =
     Inl (Response 500
       (Obj [(js ''error'', Str (js ''No valid JSON found in AI response'')),
             (js ''rawResponse'', Str (take 500 (js ''Sorry, I cannot group these tabs.'')))]))
 \<and> StructuredJSONRecovery (js ''true'') = Inr (Bool True)"
proof -
  have a: "0x7B \<notin> set (js ''Sorry, I cannot group these tabs.'')"
    and b: "0x7D \<notin> set (js ''Sorry, I cannot group these tabs.'')"
    and c: "JSON_parse (js ''Sorry, I cannot group these tabs.'') = None"
    and d: "0x7B \<notin> set (js ''true'')" and e: "0x7D \<notin> set (js ''true'')"
    and f: "JSON_parse (js ''true'') = Some (Bool True)"
    by code_simp+
  show ?thesis
    using no_braces_recovery [OF a b] no_braces_recovery [OF d e] c f by simp
qed

theorem no_braces_recovery_counterexample:
  "0x7B \<notin> set (js ''42'') \<and> 0x7D \<notin> set (js ''42'')
 \<and> StructuredJSONRecovery (js ''42'') = Inr (Num (js_of_nat 42))
 \<and> respond_to_text (js ''42'') =
     Response 500
       (Obj [(js ''error'', Str (js ''Invalid response structure from AI'')),
             (js ''received'', Num (js_of_nat 42))])"
  by code_simp

subsection \<open>Prompt construction\<close>





subsection \<open>Reading back the JSON text of a mapping\<close>

lemma takeWhile_digits:
  "(\<forall>c \<in> set ds. is_digit c) \<Longrightarrow> ends_number r \<Longrightarrow>
     takeWhile is_digit (ds @ r) = ds \<and> dropWhile is_digit (ds @ r) = r"
  by (induction ds) (auto simp: ends_number_def split: list.splits)

lemma parse_frac_end: "ends_number r \<Longrightarrow> parse_frac r = Some ([], r)"
  by (auto simp: parse_frac_def ends_number_def split: list.splits)

lemma parse_exp_end: "ends_number r \<Longrightarrow> parse_exp r = Some (0, r)"
  by (auto simp: parse_exp_def ends_number_def split: list.splits)

lemma parse_number_digits:
  assumes "ends_number r" and "0 \<le> n"
  shows "parse_number (digits_of n @ r) = Some (with_sign False (mk_num n 0), r)"
    and "0 < n \<Longrightarrow> parse_number (0x2D # digits_of n @ r) = Some (with_sign True (mk_num n 0), r)"
proof -
  obtain d ds where ds: "digits_of n = d # ds"
    by (cases "digits_of n") simp_all
  have dig: "is_digit d" "\<forall>c \<in> set ds. is_digit c"
    using digits_of_digits [OF assms(2)] ds by auto
  have d2D: "d \<noteq> 0x2D" using dig(1) by (auto simp: is_digit_def)
  have tw: "takeWhile is_digit (ds @ r) = ds" "dropWhile is_digit (ds @ r) = r"
    using takeWhile_digits [OF dig(2) assms(1)] by simp_all
  have val: "digits_val (d # ds) = n"
    using digits_val_digits_of [OF assms(2)] ds by simp
  have zero: "d = 0x30 \<Longrightarrow> ds = [] \<and> n = 0"
  proof -
    assume "d = 0x30"
    then have "\<not> 0 < n" using hd_digits_of [of n] ds by auto
    with assms(2) have "n = 0" by simp
    then show ?thesis using ds digits_of_0 by simp
  qed
  show "parse_number (digits_of n @ r) = Some (with_sign False (mk_num n 0), r)"
    using ds dig d2D tw val zero assms
    by (auto simp: parse_number_def parse_frac_end parse_exp_end)
  show "parse_number (0x2D # digits_of n @ r) = Some (with_sign True (mk_num n 0), r)" if "0 < n"
    using ds dig d2D tw val zero assms that
    by (auto simp: parse_number_def parse_frac_end parse_exp_end)
qed

lemma parse_number_decimal:
  assumes "ends_number r"
  shows "parse_number (decimal n @ r) = Some (js_of_int n, r)"
proof (cases "n < 0")
  case True
  then have "0 \<le> - n" "0 < - n" by simp_all
  from parse_number_digits(2) [OF assms this] True show ?thesis
    by (simp add: decimal_def js_of_int_def js_simps mk_num_def)
next
  case False
  then have "0 \<le> n" by simp
  from parse_number_digits(1) [OF assms this] False show ?thesis
    by (simp add: decimal_def js_of_int_def mk_num_def)
qed

lemma ctl_hex4_all:
  "\<forall>n \<in> set [0..<32]. hex4 0x30 0x30 (hex_char (of_nat n div 16)) (hex_char (of_nat n mod 16))
      = Some (of_nat n :: jschar)"
  by code_simp

lemma ctl_hex4:
  fixes c :: jschar
  assumes "c < 0x20"
  shows "hex4 0x30 0x30 (hex_char (c div 16)) (hex_char (c mod 16)) = Some c"
proof -
  have "unat c < 32" using assms by (simp add: word_less_nat_alt)
  then have "unat c \<in> set [0..<32]" by simp
  with ctl_hex4_all
  have "hex4 0x30 0x30 (hex_char (of_nat (unat c) div 16)) (hex_char (of_nat (unat c) mod 16))
      = Some (of_nat (unat c) :: jschar)"
    by blast
  then show ?thesis by simp
qed


lemma parse_chars_escape:
  "parse_chars (escape_char c @ r) =
     (case parse_chars r of None \<Rightarrow> None | Some (str, rest) \<Rightarrow> Some (c # str, rest))"
  by (auto simp: escape_char_def unescape_def ctl_hex4)

lemma parse_chars_quoted:
  "parse_chars (concat (map escape_char k) @ 0x22 # rest) = Some (k, rest)"
  by (induction k) (simp_all add: parse_chars_escape)

lemma decimal_first: "\<exists>c cs. decimal n = c # cs \<and> (c = 0x2D \<or> is_digit c)"
proof (cases "n < 0")
  case True
  then show ?thesis by (simp add: decimal_def js_simps)
next
  case False
  obtain d ds where "digits_of n = d # ds"
    by (cases "digits_of n") simp_all
  moreover from this False have "is_digit d"
    using digits_of_digits [of n d] by simp
  ultimately show ?thesis using False by (simp add: decimal_def)
qed

lemma skip_ws_Cons: "\<not> is_json_ws c \<Longrightarrow> skip_ws (c # cs) = c # cs"
  by (simp add: skip_ws_def)

lemma not_ws_simps [simp]:
  "\<not> is_json_ws 0x2C" "\<not> is_json_ws 0x5D" "\<not> is_json_ws 0x7D" "\<not> is_json_ws 0x3A"
  "\<not> is_json_ws 0x22" "\<not> is_json_ws 0x5B" "\<not> is_json_ws 0x7B" "\<not> is_json_ws 0x2D"
  "is_digit c \<Longrightarrow> \<not> is_json_ws c"
  by (auto simp: is_json_ws_def is_digit_def)

lemma skip_ws_decimal: "skip_ws (decimal n @ r) = decimal n @ r"
proof -
  obtain c cs where "decimal n = c # cs" and "c = 0x2D \<or> is_digit c"
    using decimal_first by blast
  then show ?thesis by (auto simp: skip_ws_Cons)
qed

lemma ends_number_simps [simp]: "ends_number (0x2C # r)" "ends_number (0x5D # r)"
  by (simp_all add: ends_number_def is_digit_def)

lemma parse_value_decimal:
  assumes "ends_number r"
  shows "parse_value (decimal n @ r) = Some (Num (js_of_int n), r)"
proof -
  obtain c cs where d: "decimal n = c # cs" and c: "c = 0x2D \<or> is_digit c"
    using decimal_first by blast
  from c have "c \<noteq> 0x7B" "c \<noteq> 0x5B" "c \<noteq> 0x22" "c \<noteq> 0x74" "c \<noteq> 0x66" "c \<noteq> 0x6E"
    by (auto simp: is_digit_def)
  moreover have "parse_number (c # cs @ r) = Some (js_of_int n, r)"
    using parse_number_decimal [OF assms, of n] d by simp
  ultimately show ?thesis
    using d by (subst parse_value.simps) (simp add: js_simps)
qed

lemma parse_elements_decimals:
  "ns \<noteq> [] \<Longrightarrow>
     parse_elements (join_with (js '','') (map decimal ns) @ 0x5D # rest) acc =
       Some (Arr (acc @ ids_value ns), rest)"
proof (induction ns arbitrary: acc rule: list_nonempty_induct)
  case (single n)
  show ?case
    by (subst parse_elements.simps) (simp add: parse_value_decimal skip_ws_Cons)
next
  case (cons n ns)
  then obtain m ms where ns: "ns = m # ms" by (cases ns) auto
  let ?R = "join_with (js '','') (map decimal ns) @ 0x5D # rest"
  have sk: "skip_ws ?R = ?R"
    using ns skip_ws_decimal [of m] by (cases ms) (simp_all)
  have "parse_elements (decimal n @ 0x2C # ?R) acc = parse_elements ?R (acc @ [Num (js_of_int n)])"
    by (subst parse_elements.simps) (simp add: parse_value_decimal skip_ws_Cons sk)
  with cons.IH [of "acc @ [Num (js_of_int n)]"] ns show ?case
    by (simp add: js_simps)
qed

lemma parse_value_array:
  "parse_value (render_array ns @ rest) = Some (Arr (ids_value ns), rest)"
proof (cases ns)
  case Nil
  then show ?thesis
    by (subst parse_value.simps) (simp add: render_array_def js_simps skip_ws_Cons)
next
  case (Cons m ms)
  let ?R = "join_with (js '','') (map decimal ns) @ 0x5D # rest"
  obtain c cs where d: "decimal m = c # cs" and c: "c = 0x2D \<or> is_digit c"
    using decimal_first by blast
  then obtain cs' where R: "?R = c # cs'"
    using Cons by (cases ms) simp_all
  from c have c5: "c \<noteq> 0x5D" "\<not> is_json_ws c" by (auto simp: is_digit_def)
  have "parse_value (0x5B # ?R) = parse_elements ?R []"
    unfolding R using c5 by (subst parse_value.simps) (simp add: skip_ws_Cons)
  with parse_elements_decimals [of ns rest "[]"] Cons show ?thesis
    by (simp add: render_array_def js_simps)
qed

lemma update_new: "k \<notin> fst ` set acc \<Longrightarrow> AList.update k v acc = acc @ [(k, v)]"
  by (induction acc) auto

lemma render_member_Cons:
  "render_member m @ r = 0x22 # concat (map escape_char (fst m)) @ 0x22 # 0x3A # render_array (snd m) @ r"
  by (simp add: render_member_def quote_string_def js_simps)

lemma render_array_Cons: "render_array ns @ r = 0x5B # tl (render_array ns @ r)"
  by (simp add: render_array_def js_simps)

lemma skip_ws_render_array: "skip_ws (render_array ns @ r) = render_array ns @ r"
  by (subst (1 2) render_array_Cons) (simp add: skip_ws_Cons)

lemma skip_ws_render_member: "skip_ws (render_member m @ r) = render_member m @ r"
  by (simp add: render_member_Cons skip_ws_Cons)

lemma parse_members_one:
  assumes "fst m \<notin> fst ` set acc"
  shows "parse_members (render_member m @ 0x7D # rest) acc = Some (Obj (acc @ [member_value m]), rest)"
    and "parse_members (render_member m @ 0x2C # r) acc = parse_members (skip_ws r) (acc @ [member_value m])"
  using assms
  by (subst parse_members.simps;
      simp add: render_member_Cons parse_chars_quoted skip_ws_Cons skip_ws_render_array
        parse_value_array update_new)+

lemma parse_members_render:
  "M \<noteq> [] \<Longrightarrow> distinct (map fst M) \<Longrightarrow> fst ` set acc \<inter> fst ` set M = {} \<Longrightarrow>
     parse_members (join_with (js '','') (map render_member M) @ 0x7D # rest) acc =
       Some (Obj (acc @ map member_value M), rest)"
proof (induction M arbitrary: acc rule: list_nonempty_induct)
  case (single m)
  then show ?case by (simp add: parse_members_one)
next
  case (cons m M)
  then obtain m' ms where M: "M = m' # ms" by (cases M) auto
  let ?R = "join_with (js '','') (map render_member M) @ 0x7D # rest"
  from cons.prems have new: "fst m \<notin> fst ` set acc" by auto
  have sk: "skip_ws ?R = ?R"
    using M skip_ws_render_member [of m'] by (cases ms) simp_all
  have "parse_members (render_member m @ 0x2C # ?R) acc = parse_members ?R (acc @ [member_value m])"
    using parse_members_one(2) [OF new] sk by simp
  moreover have "parse_members ?R (acc @ [member_value m]) =
      Some (Obj ((acc @ [member_value m]) @ map member_value M), rest)"
    using cons.prems by (intro cons.IH) auto
  ultimately show ?case using M by (simp add: js_simps)
qed

lemma groups_value_eq: "groups_value M = Obj (map member_value M)"
  by (simp add: groups_value_def case_prod_beta)

lemma parse_value_groups:
  assumes "distinct (map fst M)"
  shows "parse_value (render_groups M @ rest) = Some (groups_value M, rest)"
proof (cases M)
  case Nil
  then show ?thesis
    by (subst parse_value.simps)
      (simp add: render_groups_def groups_value_def js_simps skip_ws_Cons)
next
  case (Cons m ms)
  let ?R = "join_with (js '','') (map render_member M) @ 0x7D # rest"
  have "\<exists>cs'. ?R = 0x22 # cs'"
    using Cons by (cases ms) (simp_all add: render_member_Cons)
  then obtain cs' where R: "?R = 0x22 # cs'" by blast
  have "parse_value (0x7B # ?R) = parse_members ?R []"
    unfolding R by (subst parse_value.simps) (simp add: skip_ws_Cons)
  with parse_members_render [of M "[]" rest] Cons assms show ?thesis
    by (simp add: render_groups_def js_simps groups_value_eq)
qed

lemma JSON_parse_render_groups:
  assumes "distinct (map fst M)"
  shows "JSON_parse (render_groups M) = Some (groups_value M)"
proof -
  have "skip_ws (render_groups M) = render_groups M"
    by (simp add: render_groups_def js_simps skip_ws_Cons)
  with parse_value_groups [OF assms, of "[]"] show ?thesis
    by (simp add: JSON_parse_def skip_ws_def)
qed

lemma groups_value_lookup:
  assumes "distinct (map fst M)" and "m \<in> set M"
  shows "get_prop (groups_value M) (fst m) = Arr (ids_value (snd m))"
proof -
  have "distinct (map fst (map member_value M))"
    using assms(1) by (simp add: comp_def)
  moreover have "member_value m \<in> set (map member_value M)"
    using assms(2) by simp
  ultimately have "map_of (map member_value M) (fst m) = Some (Arr (ids_value (snd m)))"
    by (simp only: map_of_eq_Some_iff fst_conv)
  then show ?thesis
    by (simp add: groups_value_eq)
qed

subsection \<open>A fenced text is not JSON\<close>

lemma closed_quote_append: "closed_quote a \<Longrightarrow> closed_quote (a @ b)"
  by (induction a) auto

lemma ticks_ok_append: "ticks_ok a \<Longrightarrow> ticks_ok b \<Longrightarrow> ticks_ok (a @ b)"
  by (induction a) (auto simp: closed_quote_append)

lemma ticks_ok_no_tick: "0x60 \<notin> set a \<Longrightarrow> ticks_ok a"
  by (induction a) auto

lemma ticks_ok_suffix: "ticks_ok (a @ b) \<Longrightarrow> ticks_ok b"
  by (induction a) auto

lemma printable_closed: "\<forall>c \<in> set p. 0x20 \<le> c \<Longrightarrow> closed_quote (p @ 0x22 # r)"
  by (induction p) auto

lemma printable_ticks_ok: "\<forall>c \<in> set p. 0x20 \<le> c \<Longrightarrow> ticks_ok (p @ [0x22])"
  by (induction p) (auto simp: printable_closed)

lemma consumes_refl: "consumes_ok s s"
  unfolding consumes_ok_def by (rule exI [of _ "[]"]) simp

lemma consumes_trans: "consumes_ok s r \<Longrightarrow> consumes_ok r t \<Longrightarrow> consumes_ok s t"
  unfolding consumes_ok_def
  by (metis append.assoc ticks_ok_append)

lemma consumes_no_tick: "0x60 \<notin> set p \<Longrightarrow> consumes_ok (p @ r) r"
  unfolding consumes_ok_def using ticks_ok_no_tick by blast

lemma consumes_Cons: "c \<noteq> 0x60 \<Longrightarrow> consumes_ok (c # cs) cs"
  using consumes_no_tick [of "[c]" cs] by simp

lemma consumes_skip_ws: "consumes_ok s (skip_ws s)"
proof -
  have "0x60 \<notin> set (takeWhile is_json_ws s)"
    using set_takeWhileD [of "0x60" is_json_ws s] by (auto simp: is_json_ws_def)
  then have "consumes_ok (takeWhile is_json_ws s @ dropWhile is_json_ws s) (dropWhile is_json_ws s)"
    by (rule consumes_no_tick)
  then show ?thesis by (simp add: skip_ws_def)
qed

lemma consumes_drop: "0x60 \<notin> set (take n s) \<Longrightarrow> consumes_ok s (drop n s)"
  using consumes_no_tick [of "take n s" "drop n s"] by simp

lemma ge_trans: "(a :: jschar) \<le> h \<Longrightarrow> b \<le> a \<Longrightarrow> b \<le> h"
  by simp

lemma hex_val_printable:
  assumes "hex_val h = Some x"
  shows "0x20 \<le> h"
proof -
  from assms have "0x30 \<le> h \<or> 0x41 \<le> h \<or> 0x61 \<le> h"
    by (auto simp: hex_val_def split: if_splits)
  then show ?thesis
    by (elim disjE) (erule ge_trans, simp)+
qed

lemma hex4_printable:
  "hex4 a b c d = Some u \<Longrightarrow> 0x20 \<le> a \<and> 0x20 \<le> b \<and> 0x20 \<le> c \<and> 0x20 \<le> d"
  by (auto simp: hex4_def split: option.splits dest: hex_val_printable)

lemma unescape_printable: "unescape e = Some u \<Longrightarrow> 0x20 \<le> e"
  by (simp add: unescape_def split: if_splits)

lemma parse_chars_Cons_cases:
  assumes "parse_chars (c # cs) = Some (str, rest)"
  shows "(c = 0x22 \<and> rest = cs)
       \<or> (\<exists>h1 h2 h3 h4 r' uu str'. c = 0x5C \<and> cs = 0x75 # h1 # h2 # h3 # h4 # r'
            \<and> hex4 h1 h2 h3 h4 = Some uu \<and> parse_chars r' = Some (str', rest))
       \<or> (\<exists>e r uu str'. c = 0x5C \<and> cs = e # r \<and> unescape e = Some uu
            \<and> parse_chars r = Some (str', rest))
       \<or> (\<exists>str'. 0x20 \<le> c \<and> parse_chars cs = Some (str', rest))"
  using assms
  apply (subst (asm) parse_chars.simps(2))
  apply (auto simp del: parse_chars.simps simp add: not_less
      split: if_splits list.splits option.splits prod.splits)
  done

lemma parse_chars_consumed:
  "parse_chars s = Some (str, rest) \<Longrightarrow> \<exists>p. s = p @ 0x22 # rest \<and> (\<forall>c \<in> set p. 0x20 \<le> c)"
proof (induction s arbitrary: str rest rule: length_induct)
  case (1 s)
  then obtain c cs where s: "s = c # cs" by (cases s) auto
  from parse_chars_Cons_cases [of c cs str rest] "1.prems" s
  consider (quote) "c = 0x22" "rest = cs"
    | (uni) h1 h2 h3 h4 r' uu str' where "c = 0x5C" "cs = 0x75 # h1 # h2 # h3 # h4 # r'"
        "hex4 h1 h2 h3 h4 = Some uu" "parse_chars r' = Some (str', rest)"
    | (esc) e r uu str' where "c = 0x5C" "cs = e # r" "unescape e = Some uu"
        "parse_chars r = Some (str', rest)"
    | (raw) str' where "0x20 \<le> c" "parse_chars cs = Some (str', rest)"
    by blast
  then show ?case
  proof cases
    case quote
    with s have "s = [] @ 0x22 # rest" by simp
    then show ?thesis by (intro exI [of _ "[]"]) simp
  next
    case uni
    have "length r' < length s" using s uni by simp
    with "1.IH" uni(4) obtain p' where p': "r' = p' @ 0x22 # rest" "\<forall>c \<in> set p'. 0x20 \<le> c"
      by blast
    have "s = (0x5C # 0x75 # h1 # h2 # h3 # h4 # p') @ 0x22 # rest"
      using s uni p' by simp
    moreover have "\<forall>c \<in> set (0x5C # 0x75 # h1 # h2 # h3 # h4 # p'). 0x20 \<le> c"
      using p' hex4_printable [OF uni(3)] by simp
    ultimately show ?thesis by blast
  next
    case esc
    have "length r < length s" using s esc by simp
    with "1.IH" esc(4) obtain p' where p': "r = p' @ 0x22 # rest" "\<forall>c \<in> set p'. 0x20 \<le> c"
      by blast
    have "s = (0x5C # e # p') @ 0x22 # rest"
      using s esc p' by simp
    moreover have "\<forall>c \<in> set (0x5C # e # p'). 0x20 \<le> c"
      using p' unescape_printable [OF esc(3)] by simp
    ultimately show ?thesis by blast
  next
    case raw
    have "length cs < length s" using s by simp
    with "1.IH" raw(2) obtain p' where p': "cs = p' @ 0x22 # rest" "\<forall>c \<in> set p'. 0x20 \<le> c"
      by blast
    have "s = (c # p') @ 0x22 # rest" using s p' by simp
    moreover have "\<forall>x \<in> set (c # p'). 0x20 \<le> x" using p' raw(1) by simp
    ultimately show ?thesis by blast
  qed
qed

lemma consumes_string: "parse_chars cs = Some (k, r) \<Longrightarrow> consumes_ok (0x22 # cs) r"
proof -
  assume "parse_chars cs = Some (k, r)"
  then obtain p where p: "cs = p @ 0x22 # r" "\<forall>c \<in> set p. 0x20 \<le> c"
    using parse_chars_consumed by blast
  then have "ticks_ok (0x22 # p @ [0x22])"
    by (simp add: printable_ticks_ok)
  moreover have "0x22 # cs = (0x22 # p @ [0x22]) @ r" using p by simp
  ultimately show ?thesis unfolding consumes_ok_def by blast
qed

lemma consumes_digits: "consumes_ok r (dropWhile is_digit r)"
proof -
  have "0x60 \<notin> set (takeWhile is_digit r)"
    using set_takeWhileD [of "0x60" is_digit r] by (auto simp: is_digit_def)
  then have "consumes_ok (takeWhile is_digit r @ dropWhile is_digit r) (dropWhile is_digit r)"
    by (rule consumes_no_tick)
  then show ?thesis by simp
qed

lemma consumes_Cons_digits: "c \<noteq> 0x60 \<Longrightarrow> consumes_ok (c # r) (dropWhile is_digit r)"
  using consumes_trans [OF consumes_Cons consumes_digits] by blast

lemma consumes_frac: "parse_frac s = Some (fp, s3) \<Longrightarrow> consumes_ok s s3"
  by (auto simp: parse_frac_def consumes_refl consumes_Cons_digits split: list.splits if_splits)

lemma consumes_sign: "parse_sign r = (sg, r1) \<Longrightarrow> consumes_ok r r1"
  by (auto simp: parse_sign_def consumes_refl consumes_Cons split: list.splits if_splits)

lemma consumes_exp: "parse_exp s = Some (ex, s4) \<Longrightarrow> consumes_ok s s4"
proof (cases s)
  case Nil
  moreover assume "parse_exp s = Some (ex, s4)"
  ultimately show ?thesis by (simp add: parse_exp_def consumes_refl)
next
  case (Cons c r)
  assume a: "parse_exp s = Some (ex, s4)"
  show ?thesis
  proof (cases "c = 0x65 \<or> c = 0x45")
    case True
    obtain sg r1 where sg: "parse_sign r = (sg, r1)" by (cases "parse_sign r")
    with a Cons True have "s4 = dropWhile is_digit r1"
      by (auto simp: parse_exp_def split: if_splits)
    moreover have "consumes_ok s r" using Cons True consumes_Cons [of c r] by auto
    moreover have "consumes_ok r r1" using sg by (rule consumes_sign)
    ultimately show ?thesis
      using consumes_digits [of r1] consumes_trans by blast
  next
    case False
    with a Cons show ?thesis by (auto simp: parse_exp_def consumes_refl)
  qed
qed

lemma consumes_number:
  assumes "parse_number s = Some (x, rest)"
  shows "consumes_ok s rest"
proof -
  obtain neg s1 where n: "(case s of [] \<Rightarrow> (False, s) | c # r \<Rightarrow> if c = 0x2D then (True, r) else (False, s)) = (neg, s1)"
    by (cases "(case s of [] \<Rightarrow> (False, s) | c # r \<Rightarrow> if c = 0x2D then (True, r) else (False, s))")
  then have c1: "consumes_ok s s1"
    by (auto simp: consumes_refl consumes_Cons split: list.splits if_splits)
  from assms n obtain d r where s1: "s1 = d # r" and d: "is_digit d"
    by (cases s1) (auto simp: parse_number_def split: if_splits)
  obtain ip s2 where ip: "(if d = 0x30 then ([d], r) else (d # takeWhile is_digit r, dropWhile is_digit r)) = (ip, s2)"
    by (cases "(if d = 0x30 then ([d], r) else (d # takeWhile is_digit r, dropWhile is_digit r))")
  from d have "d \<noteq> 0x60" by (auto simp: is_digit_def)
  with ip have c2: "consumes_ok s1 s2"
    unfolding s1 by (auto simp: consumes_Cons consumes_Cons_digits split: if_splits)
  from assms n s1 d ip obtain fp s3 ex where f: "parse_frac s2 = Some (fp, s3)"
      and e: "parse_exp s3 = Some (ex, rest)"
    by (auto simp: parse_number_def split: option.splits)
  from c1 c2 consumes_frac [OF f] consumes_exp [OF e] show ?thesis
    using consumes_trans by blast
qed

lemma consumes_skip_Cons:
  "skip_ws y = d # r \<Longrightarrow> d \<noteq> 0x60 \<Longrightarrow> consumes_ok y r"
  using consumes_trans [OF consumes_skip_ws [of y], of r] consumes_Cons [of d r] by simp

lemma consumes_literal:
  "prefix (js lit) s \<Longrightarrow> CHR 0x60 \<notin> set lit \<Longrightarrow> consumes_ok s (drop (length lit) s)"
proof -
  assume a: "prefix (js lit) s" and b: "CHR 0x60 \<notin> set lit"
  then obtain r where s: "s = js lit @ r" by (auto simp: prefix_def)
  have "0x60 \<notin> set (js lit)"
  proof
    assume "0x60 \<in> set (js lit)"
    then obtain ch where "ch \<in> set lit" "(of_char ch :: jschar) = 0x60"
      by (auto simp: js_def)
    moreover have "(0x60 :: jschar) = of_char (CHR 0x60)" by simp
    ultimately have "ch = CHR 0x60" by (simp only: of_char_word_eq_iff)
    with \<open>ch \<in> set lit\<close> b show False by simp
  qed
  then have "consumes_ok (js lit @ r) r" by (rule consumes_no_tick)
  with s show ?thesis by (simp add: js_def)
qed

lemma parse_consumes:
  "(\<forall>v rest. parse_value s = Some (v, rest) \<longrightarrow> consumes_ok s rest)"
  "(\<forall>v rest. parse_elements s1 acc1 = Some (v, rest) \<longrightarrow> consumes_ok s1 rest)"
  "(\<forall>v rest. parse_members s2 acc2 = Some (v, rest) \<longrightarrow> consumes_ok s2 rest)"
proof (induction s and s1 acc1 and s2 acc2 rule: parse_value_parse_elements_parse_members.induct)
  case (1 s)
  show ?case
  proof (intro allI impI)
    fix v rest assume pv: "parse_value s = Some (v, rest)"
    then obtain c cs where s: "s = c # cs"
      by (cases s) (simp_all add: parse_value.simps)
    consider (obj) "c = 0x7B" | (arr) "c \<noteq> 0x7B" "c = 0x5B" | (str) "c = 0x22"
      | (other) "c \<noteq> 0x7B" "c \<noteq> 0x5B" "c \<noteq> 0x22" by blast
    then show "consumes_ok s rest"
    proof cases
      case obj
      with pv s obtain d r where sk: "skip_ws cs = d # r"
        and res: "(if d = 0x7D then Some (Obj [], r) else parse_members (d # r) []) = Some (v, rest)"
        by (subst (asm) parse_value.simps) (auto split: list.splits)
      have c0: "consumes_ok s cs" using s obj consumes_Cons [of c cs] by simp
      have c1: "consumes_ok cs (d # r)" using consumes_skip_ws [of cs] sk by simp
      show ?thesis
      proof (cases "d = 0x7D")
        case True
        with res have "rest = r" by simp
        moreover have "consumes_ok (d # r) r" using True consumes_Cons [of d r] by simp
        ultimately show ?thesis using c0 c1 consumes_trans by blast
      next
        case False
        with res have "parse_members (d # r) [] = Some (v, rest)" by simp
        with "1.IH"(1) [OF s obj sk False] have "consumes_ok (d # r) rest" by blast
        with c0 c1 show ?thesis using consumes_trans by blast
      qed
    next
      case arr
      with pv s obtain d r where sk: "skip_ws cs = d # r"
        and res: "(if d = 0x5D then Some (Arr [], r) else parse_elements (d # r) []) = Some (v, rest)"
        by (subst (asm) parse_value.simps) (auto split: list.splits)
      have c0: "consumes_ok s cs" using s arr consumes_Cons [of c cs] by simp
      have c1: "consumes_ok cs (d # r)" using consumes_skip_ws [of cs] sk by simp
      show ?thesis
      proof (cases "d = 0x5D")
        case True
        with res have "rest = r" by simp
        moreover have "consumes_ok (d # r) r" using True consumes_Cons [of d r] by simp
        ultimately show ?thesis using c0 c1 consumes_trans by blast
      next
        case False
        with res have "parse_elements (d # r) [] = Some (v, rest)" by simp
        with "1.IH"(2) [OF s arr sk False] have "consumes_ok (d # r) rest" by blast
        with c0 c1 show ?thesis using consumes_trans by blast
      qed
    next
      case str
      with pv s obtain k where "parse_chars cs = Some (k, rest)"
        by (subst (asm) parse_value.simps) (auto split: option.splits)
      then show ?thesis using s str consumes_string by simp
    next
      case other
      with pv s have
        "(if prefix (js ''true'') s then Some (Bool True, drop 4 s)
          else if prefix (js ''false'') s then Some (Bool False, drop 5 s)
          else if prefix (js ''null'') s then Some (Null, drop 4 s)
          else (case parse_number s of None \<Rightarrow> None | Some (x, r) \<Rightarrow> Some (Num x, r)))
         = Some (v, rest)"
        by (subst (asm) parse_value.simps) simp
      then consider "prefix (js ''true'') s" "rest = drop 4 s"
        | "prefix (js ''false'') s" "rest = drop 5 s"
        | "prefix (js ''null'') s" "rest = drop 4 s"
        | x where "parse_number s = Some (x, rest)"
        by (auto split: if_splits option.splits)
      then show ?thesis
      proof cases
        case 1
        then show ?thesis using consumes_literal [of "''true''" s] by (simp add: eval_nat_numeral)
      next
        case 2
        then show ?thesis using consumes_literal [of "''false''" s] by (simp add: eval_nat_numeral)
      next
        case 3
        then show ?thesis using consumes_literal [of "''null''" s] by (simp add: eval_nat_numeral)
      next
        case 4
        then show ?thesis by (rule consumes_number)
      qed
    qed
  qed
next
  case (2 s acc)
  show ?case
  proof (intro allI impI)
    fix v rest assume pe: "parse_elements s acc = Some (v, rest)"
    then obtain x y d r' where pv: "parse_value s = Some (x, y)" and sk: "skip_ws y = d # r'"
      and res: "(if d = 0x2C then (if length r' < length s then parse_elements (skip_ws r') (acc @ [x]) else None)
                 else if d = 0x5D then Some (Arr (acc @ [x]), r') else None) = Some (v, rest)"
      by (subst (asm) parse_elements.simps) (auto split: option.splits list.splits)
    from "2.IH"(1) pv have c0: "consumes_ok s y" by blast
    show "consumes_ok s rest"
    proof (cases "d = 0x2C")
      case True
      with res have len: "length r' < length s"
        and rec: "parse_elements (skip_ws r') (acc @ [x]) = Some (v, rest)"
        by (auto split: if_splits)
      from "2.IH"(2) [OF pv refl sk True len] rec
      have "consumes_ok (skip_ws r') rest" by blast
      moreover have "consumes_ok y r'" using sk True consumes_skip_Cons [of y d r'] by simp
      ultimately show ?thesis
        using c0 consumes_skip_ws [of r'] consumes_trans by blast
    next
      case False
      with res have "d = 0x5D" "rest = r'" by (auto split: if_splits)
      then have "consumes_ok y rest" using sk consumes_skip_Cons [of y d r'] by simp
      with c0 show ?thesis using consumes_trans by blast
    qed
  qed
next
  case (3 s acc)
  show ?case
  proof (intro allI impI)
    fix v rest assume pm: "parse_members s acc = Some (v, rest)"
    then obtain q cs k r col r1 x y d r3 where s: "s = q # cs" and q: "q = 0x22"
      and pc: "parse_chars cs = Some (k, r)" and sk1: "skip_ws r = col # r1" and col: "col = 0x3A"
      and pv: "parse_value (skip_ws r1) = Some (x, y)" and sk2: "skip_ws y = d # r3"
      and res: "(if d = 0x2C then (if length r3 < length s then parse_members (skip_ws r3) (AList.update k x acc) else None)
                 else if d = 0x7D then Some (Obj (AList.update k x acc), r3) else None) = Some (v, rest)"
      by (subst (asm) parse_members.simps) (auto split: option.splits list.splits if_splits)
    have c0: "consumes_ok s r" using s q pc consumes_string by simp
    have c1: "consumes_ok r r1" using sk1 col consumes_skip_Cons [of r col r1] by simp
    have c2: "consumes_ok r1 (skip_ws r1)" by (rule consumes_skip_ws)
    have nq: "\<not> q \<noteq> 0x22" using q by simp
    have nc: "\<not> col \<noteq> 0x3A" using col by simp
    from "3.IH"(1) [OF s nq pc refl sk1 nc] pv have c3: "consumes_ok (skip_ws r1) y" by blast
    from c0 c1 c2 c3 have c4: "consumes_ok s y" using consumes_trans by blast
    show "consumes_ok s rest"
    proof (cases "d = 0x2C")
      case True
      with res have len: "length r3 < length s"
        and rec: "parse_members (skip_ws r3) (AList.update k x acc) = Some (v, rest)"
        by (auto split: if_splits)
      from "3.IH"(2) [OF s nq pc refl sk1 nc pv refl sk2 True len] rec
      have "consumes_ok (skip_ws r3) rest" by blast
      moreover have "consumes_ok y r3" using sk2 True consumes_skip_Cons [of y d r3] by simp
      ultimately show ?thesis
        using c4 consumes_skip_ws [of r3] consumes_trans by blast
    next
      case False
      with res have "d = 0x7D" "rest = r3" by (auto split: if_splits)
      then have "consumes_ok y rest" using sk2 consumes_skip_Cons [of y d r3] by simp
      with c4 show ?thesis using consumes_trans by blast
    qed
  qed
qed

lemma JSON_parse_ticks_ok:
  assumes "JSON_parse t = Some v"
  shows "ticks_ok t"
proof -
  from assms obtain rest where pv: "parse_value (skip_ws t) = Some (v, rest)"
    and e: "skip_ws rest = []"
    by (auto simp: JSON_parse_def split: option.splits if_splits)
  have "consumes_ok t (skip_ws t)" by (rule consumes_skip_ws)
  moreover have "consumes_ok (skip_ws t) rest" using parse_consumes(1) pv by blast
  moreover have "consumes_ok rest []" using consumes_skip_ws [of rest] e by simp
  ultimately have "consumes_ok t []" using consumes_trans by blast
  then show ?thesis by (simp add: consumes_ok_def)
qed

lemma fenced_not_ticks_ok: "\<not> ticks_ok (fenced pre J post)"
proof
  assume "ticks_ok (fenced pre J post)"
  then have "ticks_ok (js ''```json\<newline>'' @ J @ js ''\<newline>```'' @ post)"
    unfolding fenced_def by (rule ticks_ok_suffix)
  then show False by (simp add: js_simps)
qed

lemma JSON_parse_fenced: "JSON_parse (fenced pre J post) = None"
  using JSON_parse_ticks_ok [of "fenced pre J post"] fenced_not_ticks_ok [of pre J post]
  by (cases "JSON_parse (fenced pre J post)") auto

subsection \<open>The fence pattern on a fenced text\<close>

lemma prefix_append_other:
  "c \<notin> set xs \<Longrightarrow> prefix xs (d @ c # v) \<longleftrightarrow> prefix xs d"
proof
  assume c: "c \<notin> set xs" and p: "prefix xs (d @ c # v)"
  from p consider "prefix xs d" | us where "xs = d @ us" "prefix us (c # v)"
    by (auto simp: prefix_append)
  then show "prefix xs d"
  proof cases
    case 1
    then show ?thesis .
  next
    case 2
    with c show ?thesis by (cases us) auto
  qed
qed (auto simp: prefix_def)

lemma star_greedy_lit_None:
  assumes "\<And>s'. \<not> prefix (x # xs) s' \<Longrightarrow> K s' = None" and "\<not> is_space x"
  shows "\<not> prefix (x # xs) (dropWhile is_space s) \<Longrightarrow> star_greedy is_space s K = None"
proof (induction s)
  case Nil
  then show ?case using assms(1) by simp
next
  case (Cons c cs)
  show ?case
  proof (cases "is_space c")
    case True
    with Cons have "star_greedy is_space cs K = None" by simp
    moreover have "K (c # cs) = None"
      using True assms by (intro assms(1)) auto
    ultimately show ?thesis using True by simp
  next
    case False
    with Cons.prems have "K (c # cs) = None" by (intro assms(1)) simp
    with False show ?thesis by simp
  qed
qed

lemma star_greedy_Some:
  assumes "K r = Some x" and "case r of [] \<Rightarrow> True | y # ys \<Rightarrow> \<not> is_space y"
  shows "\<forall>c \<in> set ws. is_space c \<Longrightarrow> star_greedy is_space (ws @ r) K = Some x"
proof (induction ws)
  case Nil
  with assms show ?case by (cases r) simp_all
next
  case (Cons c ws)
  then show ?case by simp
qed

lemma star_lazy_Some:
  assumes "K v = Some x"
  shows "(\<And>u1 u2. u = u1 @ u2 \<Longrightarrow> u2 \<noteq> [] \<Longrightarrow> K (u2 @ v) = None)
           \<Longrightarrow> star_lazy any_char (u @ v) K = Some x"
proof (induction u)
  case Nil
  with assms show ?case by (cases v) simp_all
next
  case (Cons c cs)
  have "K ((c # cs) @ v) = None"
    by (rule Cons.prems [of "[]"]) simp_all
  moreover have "star_lazy any_char (cs @ v) K = Some x"
  proof (rule Cons.IH)
    fix u1 u2 assume "cs = u1 @ u2" "u2 \<noteq> []"
    then show "K (u2 @ v) = None"
      using Cons.prems [of "c # u1" u2] by simp
  qed
  moreover have "any_char c" by (simp add: any_char_def)
  ultimately show ?case by simp
qed

lemma not_space_simps [simp]: "\<not> is_space 0x60" "\<not> is_space 0x7B" "\<not> is_space 0x7D" "is_space 0x0A"
  by (simp_all add: is_space_def)

text \<open>The fence pattern matches only where a fence opener starts.\<close>

lemma js_brace: "js ''{'' = [0x7B]"
  by (simp add: js_simps)

lemma fence_re_opens:
  assumes "\<not> opens s"
  shows "match_re fence_re (s, cap) k = None"
proof (cases "prefix (js ''```'') s")
  case False
  then show ?thesis by (simp add: fence_re_def)
next
  case True
  let ?r = "drop (length (js ''```'')) s"
  let ?rest = "Seq (Group (Seq (Lit (js ''{'')) (Seq (LazyStar any_char) (Lit (js ''}'')))))
                 (Seq (Star is_space) (Lit (js ''```'')))"
  let ?K = "\<lambda>s'. match_re ?rest (s', cap) k"
  have K: "?K s' = None" if "\<not> prefix [0x7B] s'" for s' :: jsstring
    using that by (simp add: js_simps)
  have sg: "star_greedy is_space t ?K = None"
    if "\<not> prefix (js ''{'') (dropWhile is_space t)" for t :: jsstring
  proof (rule star_greedy_lit_None [where x = "0x7B" and xs = "[]"])
    show "\<not> is_space 0x7B" by simp
    show "\<not> prefix [0x7B] (dropWhile is_space t)" using that by (simp add: js_brace)
    fix s' :: jsstring assume "\<not> prefix [0x7B] s'"
    then show "?K s' = None" by (rule K)
  qed
  have m: "match_re fence_re (s, cap) k =
      (case (if prefix (js ''json'') ?r
             then star_greedy is_space (drop (length (js ''json'')) ?r) ?K else None) of
         Some x \<Rightarrow> Some x
       | None \<Rightarrow> star_greedy is_space ?r ?K)"
    using True by (simp only: fence_re_def match_re.simps if_True)
  show ?thesis
  proof (cases "prefix (js ''json'') ?r")
    case j: True
    with assms True have "\<not> prefix (js ''{'') (dropWhile is_space (drop (length (js ''json'')) ?r))"
      by (simp add: opens_def)
    then have a: "star_greedy is_space (drop (length (js ''json'')) ?r) ?K = None" by (rule sg)
    from j obtain t where r: "?r = js ''json'' @ t" by (auto simp: prefix_def)
    have "\<not> prefix (js ''{'') (dropWhile is_space (js ''json'' @ t))"
      by (simp add: js_simps is_space_def)
    with r have "\<not> prefix (js ''{'') (dropWhile is_space ?r)" by simp
    then have "star_greedy is_space ?r ?K = None" by (rule sg)
    with a j m show ?thesis by simp
  next
    case j: False
    with assms True have "\<not> prefix (js ''{'') (dropWhile is_space ?r)"
      by (simp add: opens_def)
    then have "star_greedy is_space ?r ?K = None" by (rule sg)
    with j m show ?thesis by simp
  qed
qed

lemma prefix_dropWhile_tail:
  assumes "\<not> is_space c" and "c \<notin> set lit" and "lit \<noteq> []"
  shows "prefix lit (dropWhile is_space (q @ c # v)) \<longleftrightarrow> prefix lit (dropWhile is_space q)"
proof (cases "\<forall>x \<in> set q. is_space x")
  case True
  then have e1: "dropWhile is_space q = []" by simp
  from True assms(1) have e2: "dropWhile is_space (q @ c # v) = c # v"
    by (simp add: dropWhile_append)
  have "\<not> prefix lit (c # v)"
    using assms(2,3) by (cases lit) auto
  moreover have "\<not> prefix lit []"
    using assms(3) by simp
  ultimately show ?thesis unfolding e1 e2 by simp
next
  case False
  then obtain x where "x \<in> set q" "\<not> is_space x" by blast
  then have "dropWhile is_space (q @ c # v) = dropWhile is_space q @ c # v"
    by (rule dropWhile_append1)
  then show ?thesis using assms(2) by (simp add: prefix_append_other)
qed

lemma prefix_append_long:
  "length xs \<le> length ys \<Longrightarrow> prefix xs (ys @ zs) \<longleftrightarrow> prefix xs ys"
  by (auto simp: prefix_append)

lemma opens_fence_form:
  "opens (js ''```'' @ X) \<longleftrightarrow>
     prefix (js ''{'')
       (dropWhile is_space (if prefix (js ''json'') X then drop (length (js ''json'')) X else X))"
  by (simp add: opens_def Let_def)

lemma opens_prefix: "opens s \<Longrightarrow> prefix (js ''```'') s"
  by (simp add: opens_def)

text \<open>A fence opener cannot start in the prose and end in the fence.\<close>

lemma opens_append_fence:
  assumes "p \<noteq> []"
  shows "opens (p @ js ''```'' @ F) \<longleftrightarrow> opens p"
proof (cases "length p < 3")
  case True
  with assms consider a where "p = [a]" | a b where "p = [a, b]"
    by (cases p rule: list.exhaust; cases "tl p"; cases "tl (tl p)") auto
  then show ?thesis
    by cases (simp_all add: opens_def js_simps)
next
  case long: False
  show ?thesis
  proof (cases "prefix (js ''```'') p")
    case False
    have "length (js ''```'') \<le> length p" using long by (simp add: js_simps)
    then have "\<not> prefix (js ''```'') (p @ js ''```'' @ F)"
      using False by (simp add: prefix_append_long)
    with False show ?thesis using opens_prefix by blast
  next
    case True
    then obtain p' where p: "p = js ''```'' @ p'" by (auto simp: prefix_def)
    define G where "G = js ''``'' @ F"
    have fe: "js ''```'' @ F = 0x60 # G" by (simp add: G_def js_simps)
    have j: "prefix (js ''json'') (p' @ 0x60 # G) \<longleftrightarrow> prefix (js ''json'') p'"
      by (rule prefix_append_other) (simp add: js_simps)
    have d: "drop (length (js ''json'')) (p' @ 0x60 # G) = drop (length (js ''json'')) p' @ 0x60 # G"
      if "prefix (js ''json'') p'"
      using that by (auto simp: prefix_def)
    have t: "prefix (js ''{'') (dropWhile is_space (q @ 0x60 # G))
               \<longleftrightarrow> prefix (js ''{'') (dropWhile is_space q)" for q
      by (rule prefix_dropWhile_tail) (simp_all add: js_simps)
    have "opens (js ''```'' @ (p' @ 0x60 # G)) \<longleftrightarrow> opens (js ''```'' @ p')"
      unfolding opens_fence_form using j d t by (cases "prefix (js ''json'') p'") simp_all
    then show ?thesis by (simp add: p fe)
  qed
qed

lemma closes_append_brace:
  assumes "u2 \<noteq> []"
  shows "closes (u2 @ 0x7D # T) \<longleftrightarrow> closes (u2 @ [0x7D])"
proof -
  obtain c r where u2: "u2 = c # r" using assms by (cases u2) auto
  have "prefix (js ''```'') (dropWhile is_space (r @ 0x7D # T))
          \<longleftrightarrow> prefix (js ''```'') (dropWhile is_space r)"
    by (intro prefix_dropWhile_tail) (simp_all add: js_simps)
  moreover have "prefix (js ''```'') (dropWhile is_space (r @ [0x7D]))
          \<longleftrightarrow> prefix (js ''```'') (dropWhile is_space r)"
    by (intro prefix_dropWhile_tail) (simp_all add: js_simps)
  ultimately show ?thesis by (simp add: closes_def u2)
qed

lemma has_closer_suffix: "closes b \<Longrightarrow> has_closer (a @ b)"
proof (induction a)
  case Nil
  then show ?case by (cases b) (simp_all add: closes_def)
next
  case (Cons c a)
  then show ?case by simp
qed

lemma has_opener_suffix: "opens b \<Longrightarrow> has_opener (a @ b)"
proof (induction a)
  case Nil
  then show ?case by (cases b) (simp_all add: opens_def js_simps)
next
  case (Cons c a)
  then show ?case by simp
qed

lemma js_cbrace: "js ''}'' = [0x7D]"
  by (simp add: js_simps)

lemma js_ticks: "js ''```'' = [0x60, 0x60, 0x60]"
  by (simp add: js_simps)

text \<open>After the lazy star, the pattern goes on only where a fence closer starts.\<close>

lemma closing_None:
  assumes "\<not> closes s'"
  shows "match_re (Lit (js ''}'')) (s', cap)
           (\<lambda>(s'', c). match_re (Seq (Star is_space) (Lit (js ''```''))) (s'', g s'') k) = None"
proof (cases "prefix (js ''}'') s'")
  case False
  then show ?thesis by simp
next
  case True
  then obtain r where s': "s' = 0x7D # r" by (auto simp: prefix_def js_cbrace)
  with assms have n: "\<not> prefix [0x60, 0x60, 0x60] (dropWhile is_space r)"
    by (simp add: closes_def js_ticks)
  have "star_greedy is_space r (\<lambda>s3. match_re (Lit (js ''```'')) (s3, g r) k) = None"
  proof (rule star_greedy_lit_None [where x = "0x60" and xs = "[0x60, 0x60]"])
    show "\<not> is_space 0x60" by simp
    show "\<not> prefix [0x60, 0x60, 0x60] (dropWhile is_space r)" by (rule n)
    fix s3 :: jsstring assume "\<not> prefix [0x60, 0x60, 0x60] s3"
    then show "match_re (Lit (js ''```'')) (s3, g r) k = None" by (simp add: js_ticks)
  qed
  then show ?thesis by (simp add: s' js_cbrace)
qed

lemma fence_match:
  fixes u post :: jsstring
  defines "J \<equiv> 0x7B # u @ [0x7D]"
  defines "T \<equiv> js ''\<newline>```'' @ post"
  assumes nc: "\<And>u1 u2. u = u1 @ u2 \<Longrightarrow> u2 \<noteq> [] \<Longrightarrow> \<not> closes (u2 @ 0x7D # T)"
  shows "match_here fence_re (js ''```json\<newline>'' @ J @ T) =
           Some \<lparr>whole = js ''```json\<newline>'' @ J @ js ''\<newline>```'', group1 = Some J\<rparr>"
proof -
  define F where "F = js ''```json\<newline>'' @ J @ T"
  define k0 :: "mstate \<Rightarrow> match_result option" where "k0 = (\<lambda>(s', cap). Some \<lparr>whole = take (length F - length s') F, group1 = cap\<rparr>)"
  define res where "res = \<lparr>whole = js ''```json\<newline>'' @ J @ js ''\<newline>```'', group1 = Some J\<rparr>"
  let ?R4 = "Seq (Star is_space) (Lit (js ''```''))"
  have T: "T = 0x0A # js ''```'' @ post" by (simp add: T_def js_simps)
  have w: "take (length F - length post) F = js ''```json\<newline>'' @ J @ js ''\<newline>```''"
    by (simp add: F_def T_def)
  have r4: "match_re ?R4 (T, cap) k0 =
      Some \<lparr>whole = js ''```json\<newline>'' @ J @ js ''\<newline>```'', group1 = cap\<rparr>" for cap
  proof -
    have "star_greedy is_space ([0x0A] @ js ''```'' @ post)
            (\<lambda>s'. match_re (Lit (js ''```'')) (s', cap) k0) =
          Some \<lparr>whole = js ''```json\<newline>'' @ J @ js ''\<newline>```'', group1 = cap\<rparr>"
    proof (rule star_greedy_Some)
      show "match_re (Lit (js ''```'')) (js ''```'' @ post, cap) k0 =
          Some \<lparr>whole = js ''```json\<newline>'' @ J @ js ''\<newline>```'', group1 = cap\<rparr>"
        by (simp add: k0_def w)
      show "case js ''```'' @ post of [] \<Rightarrow> True | y # ys \<Rightarrow> \<not> is_space y"
        by (simp add: js_ticks)
      show "\<forall>c \<in> set [0x0A]. is_space c" by simp
    qed
    then show ?thesis by (simp add: T)
  qed
  define K2 where "K2 = (\<lambda>s'. match_re (Lit (js ''}'')) (s', None)
      (\<lambda>(s'', c). match_re ?R4 (s'', Some (take (length (J @ T) - length s'') (J @ T))) k0))"
  have lazy: "star_lazy any_char (u @ 0x7D # T) K2 = Some res"
  proof (rule star_lazy_Some)
    show "K2 (0x7D # T) = Some res"
      by (simp add: K2_def js_cbrace r4 res_def del: match_re.simps(5))
    fix u1 u2 assume "u = u1 @ u2" "u2 \<noteq> []"
    then have "\<not> closes (u2 @ 0x7D # T)" by (rule nc)
    then show "K2 (u2 @ 0x7D # T) = None"
      unfolding K2_def by (rule closing_None)
  qed
  have g: "match_re (Seq (Group (Seq (Lit (js ''{'')) (Seq (LazyStar any_char) (Lit (js ''}'')))))
             ?R4) (J @ T, None) k0 = Some res"
    using lazy unfolding K2_def by (simp add: J_def js_brace)
  have s: "star_greedy is_space ([0x0A] @ J @ T)
      (\<lambda>s'. match_re (Seq (Group (Seq (Lit (js ''{'')) (Seq (LazyStar any_char) (Lit (js ''}'')))))
             ?R4) (s', None) k0) = Some res"
  proof (rule star_greedy_Some)
    show "match_re (Seq (Group (Seq (Lit (js ''{'')) (Seq (LazyStar any_char) (Lit (js ''}'')))))
             ?R4) (J @ T, None) k0 = Some res" by (rule g)
    show "case J @ T of [] \<Rightarrow> True | y # ys \<Rightarrow> \<not> is_space y" by (simp add: J_def)
    show "\<forall>c \<in> set [0x0A]. is_space c" by simp
  qed
  have F: "F = js ''```'' @ js ''json'' @ [0x0A] @ J @ T"
    by (simp add: F_def js_simps)
  have "match_re fence_re (F, None) k0 = Some res"
    unfolding F fence_re_def using s by simp
  then show ?thesis
    by (simp add: match_here_def F_def k0_def res_def)
qed

lemma String_match_fenced:
  assumes m: "match_here fence_re (js ''```'' @ X) = Some r"
  shows "\<not> has_opener pre \<Longrightarrow> String_match (pre @ js ''```'' @ X) fence_re = Some r"
proof (induction pre)
  case Nil
  from m show ?case by (simp add: js_ticks)
next
  case (Cons c cs)
  then have "\<not> opens (c # cs)" and no: "\<not> has_opener cs" by simp_all
  then have "\<not> opens ((c # cs) @ js ''```'' @ X)"
    by (simp only: opens_append_fence [of "c # cs" X] list.distinct not_False_eq_True)
  then have "match_here fence_re ((c # cs) @ js ''```'' @ X) = None"
    unfolding match_here_def by (rule fence_re_opens)
  with Cons.IH [OF no] show ?case by simp
qed

text \<open>
  Claim C2, amended. For every well-formed mapping M, with distinct names and with ids
  that a Number holds exactly, whose JSON text holds no \<^verbatim>\<open>}\<close> followed by optional
  white space and three backticks (which can only be inside a name), and every prose
  whose part before the fence holds no fence opener (three backticks, an optional
  \<^verbatim>\<open>json\<close>, optional white space and \<^verbatim>\<open>{\<close>): the JSON text of M between
  \<^verbatim>\<open>```json\<close> and \<^verbatim>\<open>```\<close> lines, inside that prose, is never valid JSON as a whole,
  the fence pattern finds exactly the JSON text of M, and the recovery returns exactly
  M: the object whose properties are the members of M, each name holding the array of
  its ids, every id a Number that prints as the digits of the id.
\<close>

theorem fenced_recovery:
  assumes "well_formed M" and "\<not> has_opener pre" and "\<not> has_closer (render_groups M)"
  shows "JSON_parse (fenced pre (render_groups M) post) = None
       \<and> jsonMatch (fenced pre (render_groups M) post) =
           Some \<lparr>whole = js ''```json\<newline>'' @ render_groups M @ js ''\<newline>```'',
                 group1 = Some (render_groups M)\<rparr>
       \<and> StructuredJSONRecovery (fenced pre (render_groups M) post) = Inr (groups_value M)
       \<and> (\<forall>m \<in> set M.
             get_prop (groups_value M) (fst m) = Arr (map (\<lambda>n. Num (js_of_int n)) (snd m))
           \<and> list_all (\<lambda>n. Number_toString (js_of_int n) = decimal n) (snd m))"
proof -
  have dist: "distinct (map fst M)" and safe: "list_all (\<lambda>m. list_all safe_integer (snd m)) M"
    using assms(1) by (simp_all add: well_formed_def)
  have look: "\<forall>m \<in> set M.
             get_prop (groups_value M) (fst m) = Arr (map (\<lambda>n. Num (js_of_int n)) (snd m))
           \<and> list_all (\<lambda>n. Number_toString (js_of_int n) = decimal n) (snd m)"
  proof
    fix m
    assume m: "m \<in> set M"
    with safe have "list_all safe_integer (snd m)"
      by (simp add: list_all_iff)
    then have "list_all (\<lambda>n. Number_toString (js_of_int n) = decimal n) (snd m)"
      by (simp add: list_all_iff safe_integer_def Number_toString_decimal)
    with groups_value_lookup [OF dist m]
    show "get_prop (groups_value M) (fst m) = Arr (map (\<lambda>n. Num (js_of_int n)) (snd m))
        \<and> list_all (\<lambda>n. Number_toString (js_of_int n) = decimal n) (snd m)"
      by simp
  qed
  define J where "J = render_groups M"
  define T where "T = js ''\<newline>```'' @ post"
  obtain u where J: "J = 0x7B # u @ [0x7D]"
    by (simp add: J_def render_groups_def js_simps)
  have nc: "\<not> closes (u2 @ 0x7D # T)" if "u = u1 @ u2" "u2 \<noteq> []" for u1 u2
  proof
    assume "closes (u2 @ 0x7D # T)"
    then have "closes (u2 @ [0x7D])"
      using closes_append_brace [OF that(2), of T] by blast
    then have "has_closer ((0x7B # u1) @ u2 @ [0x7D])" by (rule has_closer_suffix)
    with that(1) J assms(3) show False by (simp add: J_def)
  qed
  have "match_here fence_re (js ''```json\<newline>'' @ (0x7B # u @ [0x7D]) @ js ''\<newline>```'' @ post) =
      Some \<lparr>whole = js ''```json\<newline>'' @ (0x7B # u @ [0x7D]) @ js ''\<newline>```'',
            group1 = Some (0x7B # u @ [0x7D])\<rparr>"
    using nc unfolding T_def by (rule fence_match)
  then have mh: "match_here fence_re (js ''```'' @ js ''json\<newline>'' @ J @ T) =
      Some \<lparr>whole = js ''```json\<newline>'' @ J @ js ''\<newline>```'', group1 = Some J\<rparr>"
    by (simp add: J T_def js_def)
  have sm: "String_match (pre @ js ''```'' @ js ''json\<newline>'' @ J @ T) fence_re =
      Some \<lparr>whole = js ''```json\<newline>'' @ J @ js ''\<newline>```'', group1 = Some J\<rparr>"
    using mh assms(2) by (rule String_match_fenced)
  have f: "fenced pre J post = pre @ js ''```'' @ js ''json\<newline>'' @ J @ T"
    by (simp add: fenced_def T_def js_def)
  have jm: "jsonMatch (fenced pre J post) =
      Some \<lparr>whole = js ''```json\<newline>'' @ J @ js ''\<newline>```'', group1 = Some J\<rparr>"
    using sm by (simp add: jsonMatch_def f)
  have np: "JSON_parse (fenced pre J post) = None" by (rule JSON_parse_fenced)
  have "J \<noteq> []" using J by simp
  then have mt: "match_text \<lparr>whole = js ''```json\<newline>'' @ J @ js ''\<newline>```'', group1 = Some J\<rparr> = J"
    by (simp add: match_text_def)
  have "JSON_parse J = Some (groups_value M)"
    unfolding J_def using dist by (rule JSON_parse_render_groups)
  with np jm mt have "StructuredJSONRecovery (fenced pre J post) = Inr (groups_value M)"
    by (simp add: StructuredJSONRecovery_def)
  with np jm have "JSON_parse (fenced pre (render_groups M) post) = None
       \<and> jsonMatch (fenced pre (render_groups M) post) =
           Some \<lparr>whole = js ''```json\<newline>'' @ render_groups M @ js ''\<newline>```'',
                 group1 = Some (render_groups M)\<rparr>
       \<and> StructuredJSONRecovery (fenced pre (render_groups M) post) = Inr (groups_value M)"
    by (simp add: J_def)
  with look show ?thesis
    by blast
qed

theorem fenced_recovery_witness:
  "StructuredJSONRecovery
     (fenced (js ''Here are `your` groups: '')
        (render_groups [(js ''Work'', [1, 20]), (js ''a}b ```'', [])])
        (js '' ``` {done}'')) =
   Inr (groups_value [(js ''Work'', [1, 20]), (js ''a}b ```'', [])])"
proof -
  have a: "well_formed [(js ''Work'', [1, 20]), (js ''a}b ```'', [])]"
    by code_simp
  have b: "\<not> has_opener (js ''Here are `your` groups: '')"
    by code_simp
  have c: "\<not> has_closer (render_groups [(js ''Work'', [1, 20]), (js ''a}b ```'', [])])"
    by code_simp
  show ?thesis
    using fenced_recovery [OF a b c] by simp
qed

theorem fenced_recovery_counterexample:
  "StructuredJSONRecovery (fenced (js ''```{}``` '') (render_groups [(js ''a'', [1])]) []) =
     Inr (Obj [])
 \<and> groups_value [(js ''a'', [1])] \<noteq> Obj []
 \<and> StructuredJSONRecovery (fenced [] (render_groups [(js ''}```'', [1])]) []) =
     Inl (Response 500
       (Obj [(js ''error'', Str (js ''Failed to parse AI response as JSON'')),
             (js ''rawResponse'',
              Str (take 500 (fenced [] (render_groups [(js ''}```'', [1])]) [])))]))"
  by code_simp

end
